theory Spec2Isabelle
  imports Complex_Main "HOL-Library.AList" "HOL-Library.Multiset"
begin

section \<open>JavaScript values\<close>

text \<open>
  Keys and values of a Containor are arbitrary JavaScript values (\<^verbatim>\<open>Containor<K = any, V = any>\<close>),
  and \<^verbatim>\<open>set\<close>, \<^verbatim>\<open>addMap\<close> and \<^verbatim>\<open>from\<close> branch on their run-time type through the helpers
  of \<^verbatim>\<open>is.ts\<close>. A value is therefore a tagged union.

  \<^item> \<open>JNum\<close> is a finite number (\<^verbatim>\<open>is.number\<close> holds); the model covers the integer-valued ones.
    \<open>JNaN\<close> and \<open>JInfinity\<close> are the numbers that are not finite.
  \<^item> Arrays, plain objects (\<^verbatim>\<open>constructor === Object\<close>), Maps (a Containor is a Map) and all
    other objects carry the identity of the object as a \<open>nat\<close>: JavaScript compares objects
    by identity, and two values of the model are equal exactly when they are the same object.
    A plain object is the list of its own properties, in enumeration order; an array has no holes.
  \<^item> Equality of the model is the key equality of a native Map (SameValueZero): \<open>JNaN\<close> equals
    itself and there is one zero.
  \<^item> \<open>JStringObject\<close> is a \<^verbatim>\<open>String\<close> object (\<^verbatim>\<open>new String('k')\<close>), which \<^verbatim>\<open>is.string\<close> accepts
    beside the primitive strings; like every object it is a key by its identity.
  \<^item> A function held as data is an \<open>JOther\<close> object; the functions a method calls (predicates,
    comparators, reducers) are arguments of the model, as HOL functions.
\<close>

datatype jsval =
    JUndefined
  | JNull
  | JBool bool
  | JNum int
  | JNaN
  | JInfinity bool
  | JStr string
  | JArr nat "jsval list"
  | JObj nat "(string \<times> jsval) list"
  | JMap nat "(jsval \<times> jsval) list"
  | JStringObject nat string
  | JOther nat

type_synonym entries = "(jsval \<times> jsval) list"

text \<open>
  A number given as an argument (an amount, an index, a count): a finite number, \<^verbatim>\<open>NaN\<close>,
  or an infinity (\<open>Infinity True\<close> the positive one). The finite numbers are rationals, as
  every finite double is, and the arithmetic on them is exact. A comparison with \<^verbatim>\<open>NaN\<close> is
  false. \<open>ToInteger\<close> is the truncation towards zero that \<^verbatim>\<open>slice\<close> and \<^verbatim>\<open>splice\<close> apply to
  their finite arguments (\<^verbatim>\<open>ToIntegerOrInfinity\<close>).
\<close>

datatype number = Finite rat | NaN | Infinity bool

fun less_than :: "number \<Rightarrow> rat \<Rightarrow> bool" where
  "less_than (Finite x) q = (x < q)"
| "less_than NaN q = False"
| "less_than (Infinity positive) q = (\<not> positive)"


fun at_least :: "number \<Rightarrow> rat \<Rightarrow> bool" where
  "at_least (Finite x) q = (q \<le> x)"
| "at_least NaN q = False"
| "at_least (Infinity positive) q = positive"

definition ToInteger :: "rat \<Rightarrow> int" where
  "ToInteger q = (if q < 0 then \<lceil>q\<rceil> else \<lfloor>q\<rfloor>)"

text \<open>The errors the two classes throw, named after their messages.\<close>

datatype error =
    KeyUndefined
  | NotAFunction
  | IndexOutOfBounds number
  | InvalidArrayLength
  | TypeError

subsection \<open>The type checks of is.ts\<close>

text \<open>\<^verbatim>\<open>string: v => typeof v === 'string' || v instanceof String\<close>\<close>

fun is_string :: "jsval \<Rightarrow> bool" where
  "is_string (JStr s) = True"
| "is_string (JStringObject a s) = True"
| "is_string v = False"

fun is_number :: "jsval \<Rightarrow> bool" where
  "is_number (JNum n) = True"
| "is_number v = False"

fun is_undefined :: "jsval \<Rightarrow> bool" where
  "is_undefined JUndefined = True"
| "is_undefined v = False"

fun is_null :: "jsval \<Rightarrow> bool" where
  "is_null JNull = True"
| "is_null v = False"

fun is_array :: "jsval \<Rightarrow> bool" where
  "is_array (JArr a es) = True"
| "is_array v = False"

fun is_plainObject :: "jsval \<Rightarrow> bool" where
  "is_plainObject (JObj a ps) = True"
| "is_plainObject v = False"

fun is_map :: "jsval \<Rightarrow> bool" where
  "is_map (JMap a es) = True"
| "is_map v = False"

text \<open>\<^verbatim>\<open>name in v\<close> and \<^verbatim>\<open>v[name]\<close>, for a plain object \<open>v\<close>.\<close>

fun has_property :: "string \<Rightarrow> jsval \<Rightarrow> bool" where
  "has_property name (JObj a ps) = (name \<in> fst ` set ps)"
| "has_property name v = False"

fun get_property :: "string \<Rightarrow> jsval \<Rightarrow> jsval" where
  "get_property name (JObj a ps) = (case map_of ps name of None \<Rightarrow> JUndefined | Some v \<Rightarrow> v)"
| "get_property name v = JUndefined"

section \<open>The native Map underneath a Containor\<close>

text \<open>
  \<^verbatim>\<open>class Containor<K, V> extends Map<K, V>\<close>: the state of a container is the entry list of the
  Map, in iteration order. \<^verbatim>\<open>Map.prototype.set\<close> overwrites the value of a present key where
  it stands and appends a new key; \<^verbatim>\<open>Map.prototype.delete\<close> says whether the key was there.
\<close>

definition Map_has :: "entries \<Rightarrow> jsval \<Rightarrow> bool" where
  "Map_has c key = (key \<in> fst ` set c)"

definition Map_get :: "entries \<Rightarrow> jsval \<Rightarrow> jsval" where
  "Map_get c key = (case map_of c key of None \<Rightarrow> JUndefined | Some v \<Rightarrow> v)"

definition Map_set :: "entries \<Rightarrow> jsval \<Rightarrow> jsval \<Rightarrow> entries" where
  "Map_set c key v = AList.update key v c"

definition Map_delete :: "entries \<Rightarrow> jsval \<Rightarrow> entries \<times> bool" where
  "Map_delete c key = (AList.delete key c, Map_has c key)"

definition Map_keys :: "entries \<Rightarrow> jsval list" where
  "Map_keys c = map fst c"


section \<open>Containor: get, set, addMap, has\<close>

text \<open>
  \<^verbatim>\<open>get(search) { const result = super.get(search); return result ?? null }\<close>
\<close>

definition Containor_get :: "entries \<Rightarrow> jsval \<Rightarrow> jsval" where
  "Containor_get c search =
     (let result = Map_get c search
      in if is_undefined result \<or> is_null result then JNull else result)"

text \<open>
  \<^verbatim>\<open>addMap(mapCombine, func)\<close> takes a reducer \<^verbatim>\<open>(incoming, existing, key, container)\<close>;
  without one the incoming value is stored.
\<close>

type_synonym reducer = "jsval \<Rightarrow> jsval \<Rightarrow> jsval \<Rightarrow> entries \<Rightarrow> jsval"

definition transform :: "reducer option \<Rightarrow> reducer" where
  "transform func = (case func of Some f \<Rightarrow> f | None \<Rightarrow> (\<lambda>v existing key c. v))"

text \<open>
  \<^verbatim>\<open>set\<close> and \<^verbatim>\<open>addMap\<close> call each other: \<^verbatim>\<open>set(key)\<close> with a key that is neither a string
  nor a finite number, and no value, merges the key; \<^verbatim>\<open>addMap\<close> stores every entry through
  \<^verbatim>\<open>this.set\<close>. A method returns the state it leaves and the error it threw, if any: an
  exception in the middle of a merge keeps the entries stored before it. The three loops
  of \<^verbatim>\<open>addMap\<close> (over a Map, an array of pairs, a plain object) are the functions
  \<open>addMap_map\<close>, \<open>addMap_array\<close> and \<open>addMap_object\<close>. The merged source is a value: it is
  not the receiver itself.
\<close>

function (sequential)
  Containor_set :: "entries \<Rightarrow> jsval \<Rightarrow> jsval \<Rightarrow> entries \<times> error option" and
  addMap :: "entries \<Rightarrow> jsval \<Rightarrow> reducer option \<Rightarrow> entries \<times> error option" and
  addMap_map :: "entries \<Rightarrow> (jsval \<times> jsval) list \<Rightarrow> reducer option \<Rightarrow> entries \<times> error option" and
  addMap_array :: "entries \<Rightarrow> jsval list \<Rightarrow> reducer option \<Rightarrow> entries \<times> error option" and
  addMap_object :: "entries \<Rightarrow> (string \<times> jsval) list \<Rightarrow> reducer option \<Rightarrow> entries \<times> error option"
where
  "Containor_set c key v =
     (if is_undefined key then (c, Some KeyUndefined)
      else if \<not> is_string key \<and> \<not> is_number key \<and> is_undefined v then addMap c key None
      else (Map_set c key v, None))"
| "addMap c (JMap a es) func = addMap_map c es func"
| "addMap c (JArr a es) func = addMap_array c es func"
| "addMap c (JObj a ps) func = addMap_object c ps func"
| "addMap c mapCombine func = (c, None)"
| "addMap_map c [] func = (c, None)"
| "addMap_map c ((key, v) # rest) func =
     (case Containor_set c key (transform func v (Containor_get c key) key c) of
        (c', Some e) \<Rightarrow> (c', Some e)
      | (c', None) \<Rightarrow> addMap_map c' rest func)"
| "addMap_array c [] func = (c, None)"
| "addMap_array c (JArr a (key # v # more) # rest) func =
     (case Containor_set c key (transform func v (Containor_get c key) key c) of
        (c', Some e) \<Rightarrow> (c', Some e)
      | (c', None) \<Rightarrow> addMap_array c' rest func)"
| "addMap_array c (entry # rest) func = addMap_array c rest func"
| "addMap_object c [] func = (c, None)"
| "addMap_object c ((name, v) # rest) func =
     (case Containor_set c (JStr name) (transform func v (Containor_get c (JStr name)) (JStr name) c) of
        (c', Some e) \<Rightarrow> (c', Some e)
      | (c', None) \<Rightarrow> addMap_object c' rest func)"
  by pat_completeness auto
termination
  by (relation "measure (\<lambda>x. case x of
        Inl (Inl (c, key, v)) \<Rightarrow> 2 * size key + 1
      | Inl (Inr (c, m, func)) \<Rightarrow> 2 * size m
      | Inr (Inl (c, es, func)) \<Rightarrow> 2 * size_list (size_prod size size) es + 1
      | Inr (Inr (Inl (c, es, func))) \<Rightarrow> 2 * size_list size es + 1
      | Inr (Inr (Inr (c, ps, func))) \<Rightarrow> 2 * size_list (size_prod (\<lambda>_. 0) size) ps + 1)")
    auto

text \<open>
  \<^verbatim>\<open>has(...keys)\<close>: no key gives \<^verbatim>\<open>false\<close>, one key a boolean, several keys the array of
  the answers with the properties \<^verbatim>\<open>hasAll\<close> and \<^verbatim>\<open>hasAny\<close>.
\<close>

datatype has_result = HasBool bool | HasArray "bool list" bool bool

definition Containor_has :: "entries \<Rightarrow> jsval list \<Rightarrow> has_result" where
  "Containor_has c keys =
     (if length keys = 0 then HasBool False
      else if length keys = 1 then HasBool (Map_has c (keys ! 0))
      else (let results = map (Map_has c) keys
            in HasArray results (list_all (\<lambda>b. b) results) (list_ex (\<lambda>b. b) results)))"

section \<open>Containor: delete\<close>

text \<open>
  \<^verbatim>\<open>delete(...args)\<close> looks at its first argument: one argument that is not a function is
  a key, deleted through \<^verbatim>\<open>super.delete\<close>, whose boolean is returned; a function in the
  first place is a predicate \<^verbatim>\<open>(value, key, container, deleted)\<close>; anything else is a list
  of keys. The two loops return the counter \<^verbatim>\<open>deleted\<close>.

  An argument is a value or a function. The predicate is called unbound (the result of
  \<^verbatim>\<open>func.bind(arg)\<close> is dropped), so its \<^verbatim>\<open>this\<close> is \<^verbatim>\<open>undefined\<close>; it reads the container
  as it is when it is called and does not change it. The loop goes over the live Map
  iterator: deleting the entry just visited does not disturb the entries still to come,
  which are those of the list taken when the loop starts.
\<close>

type_synonym delete_predicate = "jsval \<Rightarrow> jsval \<Rightarrow> jsval \<Rightarrow> entries \<Rightarrow> nat \<Rightarrow> bool"

datatype delete_arg = Key jsval | Func delete_predicate

datatype delete_result = Deleted bool | DeletedCount nat

fun delete_by_func :: "delete_predicate \<Rightarrow> entries \<Rightarrow> entries \<Rightarrow> nat \<Rightarrow> entries \<times> nat" where
  "delete_by_func func [] c deleted = (c, deleted)"
| "delete_by_func func ((key, v) # rest) c deleted =
     (if func JUndefined v key c deleted
      then delete_by_func func rest (fst (Map_delete c key)) (deleted + 1)
      else delete_by_func func rest c deleted)"

fun delete_keys :: "delete_arg list \<Rightarrow> entries \<Rightarrow> nat \<Rightarrow> entries \<times> nat" where
  "delete_keys [] c deleted = (c, deleted)"
| "delete_keys (Key key # rest) c deleted =
     (if Containor_has c [key] = HasBool True
      then delete_keys rest (fst (Map_delete c key)) (deleted + 1)
      else delete_keys rest c deleted)"
| "delete_keys (Func f # rest) c deleted = delete_keys rest c deleted"

fun Containor_delete :: "entries \<Rightarrow> delete_arg list \<Rightarrow> entries \<times> delete_result" where
  "Containor_delete c [Key key] = (case Map_delete c key of (c', result) \<Rightarrow> (c', Deleted result))"
| "Containor_delete c (Func func # rest) =
     (case delete_by_func func c c 0 of (c', deleted) \<Rightarrow> (c', DeletedCount deleted))"
| "Containor_delete c args =
     (case delete_keys args c 0 of (c', deleted) \<Rightarrow> (c', DeletedCount deleted))"

section \<open>ContainorArray\<close>

text \<open>
  \<^verbatim>\<open>constructor(...v) { super(...v) }\<close> hands its arguments to the \<^verbatim>\<open>Array\<close> constructor,
  for which a single number is a length: the array then has that many empty slots and
  no element, and a number that is not an array length is a \<^verbatim>\<open>RangeError\<close>. An array that
  may have empty slots is a list of options, \<open>None\<close> being a slot.
  \<^verbatim>\<open>static from(items) { const result = Array.from(items); return new ContainorArray(...result) }\<close>
\<close>

definition ContainorArray_new :: "jsval list \<Rightarrow> error + jsval option list" where
  "ContainorArray_new v =
     (case v of
        [JNum len] \<Rightarrow>
          if 0 \<le> len \<and> len < 2 ^ 32 then Inr (replicate (nat len) None) else Inl InvalidArrayLength
      | [JNaN] \<Rightarrow> Inl InvalidArrayLength
      | [JInfinity b] \<Rightarrow> Inl InvalidArrayLength
      | _ \<Rightarrow> Inr (map Some v))"

definition ContainorArray_from :: "jsval list \<Rightarrow> error + jsval option list" where
  "ContainorArray_from items = ContainorArray_new items"

text \<open>
  \<^verbatim>\<open>keys(func)\<close>: without \<^verbatim>\<open>func\<close> the keys of the Map, through \<^verbatim>\<open>ContainorArray.from\<close>; with
  it, \<^verbatim>\<open>func(key, this)\<close> of every key.
\<close>

definition Containor_keys :: "entries \<Rightarrow> (jsval \<Rightarrow> entries \<Rightarrow> jsval) option \<Rightarrow> error + jsval option list" where
  "Containor_keys c func =
     (case func of
        None \<Rightarrow> ContainorArray_from (Map_keys c)
      | Some f \<Rightarrow> ContainorArray_from (map (\<lambda>key. f key c) (Map_keys c)))"

text \<open>
  \<open>Set_values\<close> is \<^verbatim>\<open>Array.from(new Set(xs))\<close>: the distinct elements in the order of their
  first occurrence. Equality of the elements is the membership test of a native \<^verbatim>\<open>Set\<close>.
\<close>

fun Set_add_all :: "'a list \<Rightarrow> 'a list \<Rightarrow> 'a list" where
  "Set_add_all seen [] = seen"
| "Set_add_all seen (x # xs) = Set_add_all (if x \<in> set seen then seen else seen @ [x]) xs"

definition Set_values :: "'a list \<Rightarrow> 'a list" where
  "Set_values xs = Set_add_all [] xs"

text \<open>
  \<^verbatim>\<open>Array.prototype.filter\<close> with a callback \<^verbatim>\<open>(item, idx)\<close>, on an array that may have empty
  slots: the slots are skipped, and the result has none.
\<close>

definition Array_filter :: "('a \<Rightarrow> nat \<Rightarrow> bool) \<Rightarrow> 'a option list \<Rightarrow> 'a list" where
  "Array_filter callback xs =
     concat (map (\<lambda>(slot, idx). case slot of
                                  None \<Rightarrow> []
                                | Some item \<Rightarrow> if callback item idx then [item] else [])
                 (zip xs [0 ..< length xs]))"

text \<open>
  \<^verbatim>\<open>deleteAt(...removeArr)\<close> takes numbers (\<^verbatim>\<open>number[]\<close>) on a receiver that may have empty
  slots. The indices are checked in the order of their first occurrence by
  \<^verbatim>\<open>index < 0 || index >= this.length\<close>; then the elements at the positions that
  \<^verbatim>\<open>uniqueIndices.includes\<close> does not find are pushed back into the emptied array.
\<close>

definition deleteAt :: "'a option list \<Rightarrow> number list \<Rightarrow> 'a option list \<times> error option" where
  "deleteAt this removeArr =
     (if length removeArr = 0 then (this, None)
      else
        (let uniqueIndices = Set_values removeArr
         in case find (\<lambda>index. less_than index 0 \<or> at_least index (of_nat (length this)))
                   uniqueIndices of
              Some index \<Rightarrow> (this, Some (IndexOutOfBounds index))
            | None \<Rightarrow>
                (let items = Array_filter (\<lambda>item idx. Finite (of_nat idx) \<notin> set uniqueIndices) this
                 in (map Some items, None))))"

text \<open>
  \<^verbatim>\<open>removeDuplicates(arrayDefault = [], ...ignore)\<close> empties the receiver and pushes the
  items of \<^verbatim>\<open>arrayDefault\<close>. The argument is left out, or is the receiver itself, or is
  another array; the receiver is empty by the time the loop reads it. Receiver and argument
  are arrays without empty slots.
\<close>

datatype 'a array_arg = Omitted | This | Other "'a list"

fun removeDuplicates_loop :: "'a list \<Rightarrow> 'a list \<Rightarrow> 'a list \<Rightarrow> 'a list \<Rightarrow> 'a list" where
  "removeDuplicates_loop ignoreSet seen [] this = this"
| "removeDuplicates_loop ignoreSet seen (item # rest) this =
     (if item \<in> set ignoreSet \<or> item \<notin> set seen
      then removeDuplicates_loop ignoreSet (if item \<notin> set seen then seen @ [item] else seen) rest
             (this @ [item])
      else removeDuplicates_loop ignoreSet seen rest this)"

definition removeDuplicates :: "'a list \<Rightarrow> 'a array_arg \<Rightarrow> 'a list \<Rightarrow> 'a list" where
  "removeDuplicates this arrayDefault ignore =
     (if length this \<le> 1 then this
      else
        (let source = (case arrayDefault of Omitted \<Rightarrow> [] | This \<Rightarrow> [] | Other xs \<Rightarrow> xs)
         in removeDuplicates_loop ignore [] source []))"

section \<open>Native array methods\<close>

text \<open>
  \<^verbatim>\<open>Array.prototype.slice(start, end)\<close> and \<^verbatim>\<open>Array.prototype.splice(start, deleteCount, ...items)\<close>.
  \<open>Array_slice\<close> takes integers (\<open>None\<close> is an argument left out), so a caller truncates a
  number first; \<open>Array_splice\<close> takes a finite start and any number as delete count, which it
  truncates (\<^verbatim>\<open>NaN\<close> counts as 0) and clamps. \<open>Array_splice\<close> returns the removed
  elements and the array it leaves.
\<close>

definition relative_index :: "int \<Rightarrow> int \<Rightarrow> int" where
  "relative_index len i = (if i < 0 then max (len + i) 0 else min i len)"

definition Array_slice :: "'a list \<Rightarrow> int option \<Rightarrow> int option \<Rightarrow> 'a list" where
  "Array_slice xs start end =
     (let len = int (length xs);
          k = relative_index len (case start of None \<Rightarrow> 0 | Some s \<Rightarrow> s);
          final = (case end of None \<Rightarrow> len | Some e \<Rightarrow> relative_index len e);
          count = max (final - k) 0
      in take (nat count) (drop (nat k) xs))"


text \<open>
  \<^verbatim>\<open>Array.prototype.sort(comparefn)\<close>. The language fixes its result for a comparator that
  is consistent on the elements (\<open>consistent\<close> below, the conditions of the language
  standard on the sign of \<^verbatim>\<open>comparefn(a, b)\<close>: equality is reflexive, symmetric and
  transitive, less and greater are transitive): the elements in ascending order, those
  that the comparator holds equal in the order they had. The insertion below computes
  this arrangement: an element goes behind every element it does not precede. For any
  other comparator the language leaves the order to the implementation, and the
  insertion is one implementation among those allowed.
\<close>

fun insert_by :: "('a \<Rightarrow> 'a \<Rightarrow> int) \<Rightarrow> 'a \<Rightarrow> 'a list \<Rightarrow> 'a list" where
  "insert_by comparefn x [] = [x]"
| "insert_by comparefn x (y # ys) =
     (if comparefn x y < 0 then x # y # ys else y # insert_by comparefn x ys)"

definition Array_sort :: "('a \<Rightarrow> 'a \<Rightarrow> int) \<Rightarrow> 'a list \<Rightarrow> 'a list" where
  "Array_sort comparefn xs = foldl (\<lambda>sorted x. insert_by comparefn x sorted) [] xs"

definition consistent :: "('a \<Rightarrow> 'a \<Rightarrow> int) \<Rightarrow> 'a set \<Rightarrow> bool" where
  "consistent comparefn S =
     (\<forall>a\<in>S. \<forall>b\<in>S. \<forall>c\<in>S.
        comparefn a a = 0 \<and>
        (comparefn a b = 0 \<longrightarrow> comparefn b a = 0) \<and>
        (comparefn a b = 0 \<and> comparefn b c = 0 \<longrightarrow> comparefn a c = 0) \<and>
        (comparefn a b < 0 \<and> comparefn b c < 0 \<longrightarrow> comparefn a c < 0) \<and>
        (comparefn a b > 0 \<and> comparefn b c > 0 \<longrightarrow> comparefn a c > 0))"

section \<open>Containor: sort\<close>

text \<open>
  \<^verbatim>\<open>sort(func, arg)\<close> sorts the entries by \<^verbatim>\<open>func(a[1], b[1], a[0], b[0])\<close>, clears the Map and
  stores the entries again. \<open>None\<close> is an argument that is not a function. The comparator
  takes the \<^verbatim>\<open>this\<close> it is bound to first (\<^verbatim>\<open>arg\<close>) and returns a number, of which the sign
  counts.
\<close>

type_synonym comparator = "jsval \<Rightarrow> jsval \<Rightarrow> jsval \<Rightarrow> jsval \<Rightarrow> jsval \<Rightarrow> int"

definition Map_rebuild :: "entries \<Rightarrow> entries" where
  "Map_rebuild es = foldl (\<lambda>c (key, v). Map_set c key v) [] es"

definition Containor_sort :: "entries \<Rightarrow> comparator option \<Rightarrow> jsval \<Rightarrow> entries \<times> error option" where
  "Containor_sort c func arg =
     (case func of
        None \<Rightarrow> (c, Some NotAFunction)
      | Some f \<Rightarrow>
          (let es = Array_sort (\<lambda>a b. f arg (snd a) (snd b) (fst a) (fst b)) c
           in (Map_rebuild es, None)))"

section \<open>Methods that create containers\<close>

text \<open>
  \<^verbatim>\<open>first\<close>, \<^verbatim>\<open>last\<close>, \<^verbatim>\<open>slice\<close>, \<^verbatim>\<open>splice\<close>, \<^verbatim>\<open>filter\<close> and \<^verbatim>\<open>partition\<close> build new
  containers beside the receiver. The containers live in a store, the list of their
  states; a container is its position in the store and \<^verbatim>\<open>new Containor()\<close> appends an empty
  one. A method takes the store and the receiver \<open>this\<close> and returns the store it leaves
  with its result or the error it threw.
\<close>

type_synonym store = "entries list"

definition new_Containor :: "store \<Rightarrow> store \<times> nat" where
  "new_Containor h = (h @ [[]], length h)"

definition set_at :: "store \<Rightarrow> nat \<Rightarrow> jsval \<Rightarrow> jsval \<Rightarrow> store \<times> error option" where
  "set_at h containor key v =
     (case Containor_set (h ! containor) key v of (c', e) \<Rightarrow> (h[containor := c'], e))"

text \<open>
  \<^verbatim>\<open>Containor.from(source)\<close> as this class calls it: \<^verbatim>\<open>source\<close> is an array of \<^verbatim>\<open>[key, value]\<close>
  arrays and there is no \<^verbatim>\<open>mapFn\<close>. Every element is an array, so the source is not
  re-indexed, and each pair is stored with \<^verbatim>\<open>set\<close>: under the key and value of the pair,
  unless the value is a plain object with the properties \<^verbatim>\<open>key\<close> and \<^verbatim>\<open>value\<close>, which are
  then stored instead.
\<close>

fun from_loop :: "store \<Rightarrow> nat \<Rightarrow> entries \<Rightarrow> store \<times> error option" where
  "from_loop h containor [] = (h, None)"
| "from_loop h containor ((key, v) # rest) =
     (case (if is_plainObject v \<and> has_property ''key'' v \<and> has_property ''value'' v
            then set_at h containor (get_property ''key'' v) (get_property ''value'' v)
            else set_at h containor key v) of
        (h', Some e) \<Rightarrow> (h', Some e)
      | (h', None) \<Rightarrow> from_loop h' containor rest)"

definition Containor_from :: "store \<Rightarrow> entries \<Rightarrow> store \<times> (error + nat)" where
  "Containor_from h source =
     (case new_Containor h of
        (h1, containor) \<Rightarrow>
          (case from_loop h1 containor source of
             (h2, Some e) \<Rightarrow> (h2, Inl e)
           | (h2, None) \<Rightarrow> (h2, Inr containor)))"




text \<open>\<^verbatim>\<open>slice(start, end) { const entries = [...super.entries()]; return Containor.from(entries.slice(start, end)) }\<close>\<close>

definition Containor_slice :: "store \<Rightarrow> nat \<Rightarrow> int option \<Rightarrow> int option \<Rightarrow> store \<times> (error + nat)" where
  "Containor_slice h this start end =
     (let entries = h ! this
      in Containor_from h (Array_slice entries start end))"


text \<open>
  \<^verbatim>\<open>filter(func, arg)\<close> and \<^verbatim>\<open>partition(func, arg)\<close>: \<open>None\<close> is a \<^verbatim>\<open>func\<close> that is not a
  function. The predicate takes the \<^verbatim>\<open>this\<close> it is bound to (\<^verbatim>\<open>arg\<close>), the value, the key
  and the receiver as it is when the predicate is called; it changes nothing. The loops
  go over the entries of the receiver, and store into the new containers only.
\<close>

type_synonym predicate = "jsval \<Rightarrow> jsval \<Rightarrow> jsval \<Rightarrow> entries \<Rightarrow> bool"

fun filter_loop :: "predicate \<Rightarrow> jsval \<Rightarrow> nat \<Rightarrow> nat \<Rightarrow> entries \<Rightarrow> store \<Rightarrow> store \<times> error option" where
  "filter_loop func arg this results [] h = (h, None)"
| "filter_loop func arg this results ((key, v) # rest) h =
     (if func arg v key (h ! this)
      then (case set_at h results key v of
              (h', Some e) \<Rightarrow> (h', Some e)
            | (h', None) \<Rightarrow> filter_loop func arg this results rest h')
      else filter_loop func arg this results rest h)"

definition Containor_filter :: "store \<Rightarrow> nat \<Rightarrow> predicate option \<Rightarrow> jsval \<Rightarrow> store \<times> (error + nat)" where
  "Containor_filter h this func arg =
     (case func of
        None \<Rightarrow> (h, Inl NotAFunction)
      | Some f \<Rightarrow>
          (case new_Containor h of
             (h1, results) \<Rightarrow>
               (case filter_loop f arg this results (h1 ! this) h1 of
                  (h2, Some e) \<Rightarrow> (h2, Inl e)
                | (h2, None) \<Rightarrow> (h2, Inr results))))"

fun partition_loop ::
  "predicate \<Rightarrow> jsval \<Rightarrow> nat \<Rightarrow> nat \<Rightarrow> nat \<Rightarrow> entries \<Rightarrow> store \<Rightarrow> store \<times> error option" where
  "partition_loop func arg this results0 results1 [] h = (h, None)"
| "partition_loop func arg this results0 results1 ((key, v) # rest) h =
     (case (if func arg v key (h ! this) then set_at h results0 key v else set_at h results1 key v) of
        (h', Some e) \<Rightarrow> (h', Some e)
      | (h', None) \<Rightarrow> partition_loop func arg this results0 results1 rest h')"

definition Containor_partition ::
  "store \<Rightarrow> nat \<Rightarrow> predicate option \<Rightarrow> jsval \<Rightarrow> store \<times> (error + nat \<times> nat)" where
  "Containor_partition h this func arg =
     (case func of
        None \<Rightarrow> (h, Inl NotAFunction)
      | Some f \<Rightarrow>
          (case new_Containor h of
             (h1, results0) \<Rightarrow>
               (case new_Containor h1 of
                  (h2, results1) \<Rightarrow>
                    (case partition_loop f arg this results0 results1 (h2 ! this) h2 of
                       (h3, Some e) \<Rightarrow> (h3, Inl e)
                     | (h3, None) \<Rightarrow> (h3, Inr (results0, results1))))))"


text \<open>
  \<open>extends c c'\<close>: the container \<open>c'\<close> holds the keys of \<open>c\<close> at their positions, followed by
  the keys it has in addition. \<open>typeof_number\<close> is \<^verbatim>\<open>typeof v === 'number'\<close>.
\<close>

definition extends :: "entries \<Rightarrow> entries \<Rightarrow> bool" where
  "extends c c' = (\<exists>new. Map_keys c' = Map_keys c @ new)"

fun typeof_number :: "jsval \<Rightarrow> bool" where
  "typeof_number (JNum n) = True"
| "typeof_number JNaN = True"
| "typeof_number (JInfinity b) = True"
| "typeof_number v = False"

section \<open>Facts about the native Map and about set\<close>

declare Containor_set.simps [simp del]

lemma Containor_set_direct:
  "\<not> is_undefined key \<Longrightarrow> is_string key \<or> is_number key \<or> \<not> is_undefined v \<Longrightarrow>
   Containor_set c key v = (Map_set c key v, None)"
  by (auto simp: Containor_set.simps)

lemma Map_set_new: "\<not> Map_has c key \<Longrightarrow> Map_set c key v = c @ [(key, v)]"
  unfolding Map_has_def Map_set_def
  by (induction c) auto

lemma Map_get_absent: "\<not> Map_has c key \<Longrightarrow> Map_get c key = JUndefined"
  unfolding Map_has_def Map_get_def
  by (simp add: map_of_eq_None_iff[THEN iffD2])

lemma Map_get_appended: "\<not> Map_has c key \<Longrightarrow> Map_get (c @ [(key, v)]) key = v"
  unfolding Map_has_def Map_get_def
  by (simp add: map_of_eq_None_iff[THEN iffD2] map_add_def)

section \<open>has without a key\<close>

text \<open>
  C9. \<^verbatim>\<open>has()\<close> with no argument returns the boolean \<^verbatim>\<open>false\<close>, whatever the container
  holds: it does not throw and does not return an array of booleans.
\<close>

theorem has_no_keys: "Containor_has c [] = HasBool False"
  by (simp add: Containor_has_def)

section \<open>set, then has and get\<close>

text \<open>
  C3, as the code has it. Let \<open>k\<close> be any key that the container does not hold, \<^verbatim>\<open>undefined\<close>
  included. Then \<^verbatim>\<open>has(k)\<close> is \<^verbatim>\<open>false\<close> and \<^verbatim>\<open>get(k)\<close> is \<^verbatim>\<open>null\<close>, and \<^verbatim>\<open>get\<close> never returns
  \<^verbatim>\<open>undefined\<close>, for any key. If moreover \<open>k\<close> is not \<^verbatim>\<open>undefined\<close>, and \<open>k\<close> is a string or a
  finite number or the value \<open>v\<close> is not \<^verbatim>\<open>undefined\<close>, then \<^verbatim>\<open>set(k, v)\<close> appends the entry,
  after which \<^verbatim>\<open>has(k)\<close> is \<^verbatim>\<open>true\<close> and \<^verbatim>\<open>get(k)\<close> is \<open>v\<close>, except that a stored \<^verbatim>\<open>undefined\<close> or
  \<^verbatim>\<open>null\<close> reads as \<^verbatim>\<open>null\<close>, the answer for an absent key.
\<close>

theorem set_then_has_get:
  assumes "\<not> Map_has c k"
  shows "Containor_has c [k] = HasBool False \<and>
         Containor_get c k = JNull \<and>
         Containor_get c k' \<noteq> JUndefined \<and>
         (\<not> is_undefined k \<and> (is_string k \<or> is_number k \<or> \<not> is_undefined v) \<longrightarrow>
            Containor_set c k v = (c @ [(k, v)], None) \<and>
            Containor_has (c @ [(k, v)]) [k] = HasBool True \<and>
            Containor_get (c @ [(k, v)]) k = (if is_undefined v \<or> is_null v then JNull else v))"
proof -
  have "Containor_has c [k] = HasBool False"
    using assms by (simp add: Containor_has_def)
  moreover have "Containor_get c k = JNull"
    using assms by (simp add: Containor_get_def Map_get_absent)
  moreover have "Containor_get c k' \<noteq> JUndefined"
    by (cases "Map_get c k'") (simp_all add: Containor_get_def)
  moreover have "Containor_set c k v = (c @ [(k, v)], None)"
    if "\<not> is_undefined k" and "is_string k \<or> is_number k \<or> \<not> is_undefined v"
    using assms that by (simp add: Containor_set_direct Map_set_new)
  moreover have "Containor_has (c @ [(k, v)]) [k] = HasBool True"
    by (simp add: Containor_has_def Map_has_def)
  moreover have "Containor_get (c @ [(k, v)]) k = (if is_undefined v \<or> is_null v then JNull else v)"
    using assms by (simp add: Containor_get_def Map_get_appended)
  ultimately show ?thesis by blast
qed

text \<open>
  The theorem at the empty container: the key \<^verbatim>\<open>'a'\<close> with the value 1, the key
  \<^verbatim>\<open>new String('k')\<close> without a value, and the absent key \<^verbatim>\<open>undefined\<close>.
\<close>

theorem set_then_has_get_witness:
  "Containor_has [] [JStr ''a''] = HasBool False \<and>
   Containor_get [] (JStr ''a'') = JNull \<and>
   Containor_set [] (JStr ''a'') (JNum 1) = ([(JStr ''a'', JNum 1)], None) \<and>
   Containor_has [(JStr ''a'', JNum 1)] [JStr ''a''] = HasBool True \<and>
   Containor_get [(JStr ''a'', JNum 1)] (JStr ''a'') = JNum 1 \<and>
   Containor_set [] (JStringObject 7 ''k'') JUndefined = ([(JStringObject 7 ''k'', JUndefined)], None) \<and>
   Containor_has [(JStringObject 7 ''k'', JUndefined)] [JStringObject 7 ''k''] = HasBool True \<and>
   Containor_has [] [JUndefined] = HasBool False \<and>
   Containor_get [] JUndefined = JNull"
  using set_then_has_get [of "[]" "JStr ''a''" JUndefined "JNum 1"]
    set_then_has_get [of "[]" "JStringObject 7 ''k''" JUndefined JUndefined]
    set_then_has_get [of "[]" JUndefined JUndefined JUndefined]
  by (simp add: Map_has_def)

text \<open>
  Where the claim as written fails, on the empty container. A stored \<^verbatim>\<open>null\<close> under
  \<^verbatim>\<open>'a'\<close> reads like the absent key \<^verbatim>\<open>'b'\<close>; after \<^verbatim>\<open>set('a', undefined)\<close>, \<^verbatim>\<open>get('a')\<close> is \<^verbatim>\<open>null\<close>
  and not the value stored; \<^verbatim>\<open>set(true, undefined)\<close> stores nothing, so \<^verbatim>\<open>has(true)\<close> stays
  \<^verbatim>\<open>false\<close>; and \<^verbatim>\<open>set(undefined, 1)\<close> throws.
\<close>

theorem set_then_has_get_counterexample:
  "Containor_set [] (JStr ''a'') JNull = ([(JStr ''a'', JNull)], None) \<and>
   Containor_get [(JStr ''a'', JNull)] (JStr ''a'') = Containor_get [(JStr ''a'', JNull)] (JStr ''b'') \<and>
   Containor_set [] (JStr ''a'') JUndefined = ([(JStr ''a'', JUndefined)], None) \<and>
   Containor_get [(JStr ''a'', JUndefined)] (JStr ''a'') = JNull \<and>
   Containor_set [] (JBool True) JUndefined = ([], None) \<and>
   Containor_has [] [JBool True] = HasBool False \<and>
   Containor_set [] JUndefined (JNum 1) = ([], Some KeyUndefined)"
  by (simp add: Containor_set.simps Containor_get_def Map_get_def Map_set_def Containor_has_def Map_has_def)

section \<open>removeDuplicates\<close>

text \<open>
  On a receiver of two elements and more, and given an array \<open>xs\<close> that is not the receiver,
  \<^verbatim>\<open>removeDuplicates(xs, ...ignore)\<close> leaves in the receiver the elements of \<open>xs\<close> that are
  listed in \<^verbatim>\<open>ignore\<close> or that do not occur earlier in \<open>xs\<close>, in their order.
\<close>

lemma removeDuplicates_loop_kept:
  "removeDuplicates_loop ig seen xs acc =
     acc @ nths xs {i. xs ! i \<in> set ig \<or> xs ! i \<notin> set seen \<union> set (take i xs)}"
proof (induction xs arbitrary: seen acc)
  case Nil
  then show ?case by simp
next
  case (Cons x xs)
  let ?A = "{i. (x # xs) ! i \<in> set ig \<or> (x # xs) ! i \<notin> set seen \<union> set (take i (x # xs))}"
  let ?B = "\<lambda>s. {j. xs ! j \<in> set ig \<or> xs ! j \<notin> set s \<union> set (take j xs)}"
  have zero: "(0 \<in> ?A) = (x \<in> set ig \<or> x \<notin> set seen)" by simp
  have rest: "{j. Suc j \<in> ?A} = {j. xs ! j \<in> set ig \<or> xs ! j \<notin> insert x (set seen \<union> set (take j xs))}"
    by (rule Collect_cong) (simp, blast)
  have split: "nths (x # xs) ?A = (if 0 \<in> ?A then [x] else []) @ nths xs {j. Suc j \<in> ?A}"
    by (rule nths_Cons)
  show ?case
  proof (cases "x \<in> set ig \<or> x \<notin> set seen")
    case True
    let ?s = "if x \<notin> set seen then seen @ [x] else seen"
    have "?B ?s = {j. Suc j \<in> ?A}"
      unfolding rest by (rule Collect_cong) (simp, blast)
    then have "removeDuplicates_loop ig ?s xs (acc @ [x]) = (acc @ [x]) @ nths xs {j. Suc j \<in> ?A}"
      using Cons.IH [of ?s "acc @ [x]"] by simp
    then show ?thesis
      unfolding split using True zero by simp
  next
    case False
    then have "?B seen = {j. Suc j \<in> ?A}"
      unfolding rest by (intro Collect_cong) (simp, blast)
    then have "removeDuplicates_loop ig seen xs acc = acc @ nths xs {j. Suc j \<in> ?A}"
      using Cons.IH [of seen acc] by simp
    then show ?thesis
      unfolding split using False zero by simp
  qed
qed

lemma removeDuplicates_copy:
  "2 \<le> length this \<Longrightarrow>
   removeDuplicates this (Other xs) ig =
     nths xs {i. xs ! i \<in> set ig \<or> xs ! i \<notin> set (take i xs)}"
  by (simp add: removeDuplicates_def removeDuplicates_loop_kept)

text \<open>
  C4. The claim is that \<^verbatim>\<open>removeDuplicates()\<close> on \<^verbatim>\<open>[1,2,2,3,1]\<close> yields \<^verbatim>\<open>[1,2,3]\<close>. The code
  empties the receiver and then reads \<^verbatim>\<open>arrayDefault\<close>, which is \<^verbatim>\<open>[]\<close> when left out: the
  result is the empty sequence. It is empty as well when the receiver itself is passed,
  and is \<^verbatim>\<open>[1,2,3]\<close> only when a copy of the receiver is passed.
\<close>

theorem removeDuplicates_no_argument:
  "removeDuplicates [1, 2, 2, 3, 1 :: int] Omitted [] = [] \<and>
   removeDuplicates [1, 2, 2, 3, 1 :: int] This [] = [] \<and>
   removeDuplicates [1, 2, 2, 3, 1 :: int] (Other [1, 2, 2, 3, 1]) [] = [1, 2, 3]"
  by (simp add: removeDuplicates_def)

section \<open>The order of the keys\<close>

text \<open>
  In the Map underneath, every call of \<^verbatim>\<open>set\<close> (a plain store, a merge, or a call that
  throws) and of \<^verbatim>\<open>addMap\<close> keeps the keys that were there at their positions and puts the
  new keys behind them. \<^verbatim>\<open>keys()\<close> returns the keys of the Map as they stand, unless the
  container holds exactly one key and that key is a number.
\<close>

lemma Map_set_keys:
  "Map_keys (Map_set c key v) = (if Map_has c key then Map_keys c else Map_keys c @ [key])"
  by (simp add: Map_keys_def Map_set_def Map_has_def update_keys)


lemma extends_refl: "extends c c"
  by (simp add: extends_def)

lemma extends_trans: "extends a b \<Longrightarrow> extends b c \<Longrightarrow> extends a c"
  by (auto simp: extends_def)

lemma extends_Map_set: "extends c (Map_set c key v)"
  by (simp add: extends_def Map_set_keys)

lemma set_keeps_order:
  "extends c (fst (Containor_set c key v))"
  "extends c (fst (addMap c m func))"
  "extends c (fst (addMap_map c es func))"
  "extends c (fst (addMap_array c as func))"
  "extends c (fst (addMap_object c ps func))"
  apply (induction c key v and c m func and c es func and c as func and c ps func
      rule: Containor_set_addMap_addMap_map_addMap_array_addMap_object.induct)
  apply (auto simp: Containor_set.simps extends_refl extends_Map_set
       split: prod.splits option.splits intro: extends_trans)
  apply (blast intro: extends_trans extends_Map_set)
  done

lemma keys_unless_single_number:
  assumes "length c \<noteq> 1 \<or> (\<exists>k v. c = [(k, v)] \<and> \<not> typeof_number k)"
  shows "Containor_keys c None = Inr (map Some (Map_keys c))"
proof (cases c)
  case Nil
  then show ?thesis
    by (simp add: Containor_keys_def ContainorArray_from_def ContainorArray_new_def Map_keys_def)
next
  case (Cons e es)
  show ?thesis
  proof (cases es)
    case Nil
    with Cons assms obtain k v where "c = [(k, v)]" "\<not> typeof_number k"
      by auto
    then show ?thesis
      by (cases k) (simp_all add: Containor_keys_def ContainorArray_from_def ContainorArray_new_def Map_keys_def)
  next
    case (Cons e2 es2)
    with \<open>c = e # es\<close> show ?thesis
      by (simp add: Containor_keys_def ContainorArray_from_def ContainorArray_new_def Map_keys_def
          split: jsval.splits list.splits)
  qed
qed

text \<open>
  C2. The claim is that \<^verbatim>\<open>keys()\<close> returns the keys in the order of their first insertion.
  After \<^verbatim>\<open>set(3, 'a')\<close> on the empty container the Map holds the one key 3, and \<^verbatim>\<open>keys()\<close>
  is \<^verbatim>\<open>ContainorArray.from\<close> of it, that is \<^verbatim>\<open>new ContainorArray(3)\<close>: three empty slots and no
  key.
\<close>

theorem keys_single_number:
  "Containor_set [] (JNum 3) (JStr ''a'') = ([(JNum 3, JStr ''a'')], None) \<and>
   Containor_keys [(JNum 3, JStr ''a'')] None = Inr [None, None, None]"
  by (simp add: Containor_set.simps Map_set_def Containor_keys_def ContainorArray_from_def
      ContainorArray_new_def Map_keys_def numeral_3_eq_3)

section \<open>deleteAt\<close>

text \<open>
  What \<^verbatim>\<open>deleteAt\<close> does with numbers: if some index is below 0 or at least the length
  (an infinity included), it throws the out-of-bounds error for such an index and leaves
  the sequence as it was; otherwise it keeps the elements at the positions that are not
  given, in their order, and drops the empty slots. An index given several times has the
  effect of the index given once. On a sequence without empty slots the result is the
  sublist at the positions not given.
\<close>

lemma set_Set_add_all: "set (Set_add_all seen xs) = set seen \<union> set xs"
  by (induction xs arbitrary: seen) auto

lemma distinct_Set_add_all: "distinct seen \<Longrightarrow> distinct (Set_add_all seen xs)"
  by (induction xs arbitrary: seen) auto

lemma Set_add_all_distinct: "distinct (seen @ xs) \<Longrightarrow> Set_add_all seen xs = seen @ xs"
  by (induction xs arbitrary: seen) auto

lemma set_Set_values [simp]: "set (Set_values xs) = set xs"
  by (simp add: Set_values_def set_Set_add_all)

lemma distinct_Set_values [simp]: "distinct (Set_values xs)"
  by (simp add: Set_values_def distinct_Set_add_all)

lemma Set_values_idem [simp]: "Set_values (Set_values xs) = Set_values xs"
  using Set_add_all_distinct [of "[]" "Set_values xs"] by (simp add: Set_values_def [of "Set_values xs"])

lemma Set_values_Nil_iff [simp]: "(Set_values xs = []) = (xs = [])"
  by (metis set_Set_values set_empty)

lemma deleteAt_error:
  assumes "\<exists>i\<in>set removeArr. less_than i 0 \<or> at_least i (of_nat (length this))"
  shows "\<exists>i\<in>set removeArr. (less_than i 0 \<or> at_least i (of_nat (length this))) \<and>
           deleteAt this removeArr = (this, Some (IndexOutOfBounds i))"
proof -
  let ?bad = "\<lambda>index. less_than index 0 \<or> at_least index (of_nat (length this))"
  from assms have ne: "removeArr \<noteq> []" by auto
  from assms obtain i where f: "find ?bad (Set_values removeArr) = Some i"
    by (cases "find ?bad (Set_values removeArr)") (auto simp: find_None_iff)
  then have "i \<in> set removeArr" "?bad i"
    by (auto simp: find_Some_iff dest: nth_mem)
  moreover have "deleteAt this removeArr = (this, Some (IndexOutOfBounds i))"
    using ne f by (simp add: deleteAt_def)
  ultimately show ?thesis by blast
qed

lemma deleteAt_success:
  assumes "\<forall>i\<in>set removeArr. \<not> less_than i 0 \<and> \<not> at_least i (of_nat (length this))"
    and "removeArr \<noteq> []"
  shows "deleteAt this removeArr =
           (map Some (Array_filter (\<lambda>item idx. Finite (of_nat idx) \<notin> set removeArr) this), None)"
proof -
  have "find (\<lambda>index. less_than index 0 \<or> at_least index (of_nat (length this)))
          (Set_values removeArr) = None"
    using assms(1) by (auto simp: find_None_iff)
  then show ?thesis
    using assms(2) by (simp add: deleteAt_def)
qed

lemma deleteAt_duplicates: "deleteAt this removeArr = deleteAt this (Set_values removeArr)"
  by (simp add: deleteAt_def)

lemma Array_filter_dense:
  "Array_filter callback (map Some xs) =
     map fst (filter (\<lambda>(item, idx). callback item idx) (zip xs [0 ..< length xs]))"
proof -
  have "\<And>n. concat (map (\<lambda>(slot, idx). case slot of None \<Rightarrow> [] | Some item \<Rightarrow> if callback item idx then [item] else [])
                 (zip (map Some xs) [n ..< n + length xs]))
        = map fst (filter (\<lambda>(item, idx). callback item idx) (zip xs [n ..< n + length xs]))"
  proof (induction xs)
    case Nil
    then show ?case by simp
  next
    case (Cons x xs)
    have "[n ..< n + length (x # xs)] = n # [Suc n ..< Suc n + length xs]"
      by (simp add: upt_rec)
    then show ?case using Cons [of "Suc n"] by simp
  qed
  from this [of 0] show ?thesis by (simp add: Array_filter_def)
qed

lemma deleteAt_dense:
  assumes "\<forall>i\<in>set removeArr. \<not> less_than i 0 \<and> \<not> at_least i (of_nat (length xs))"
  shows "deleteAt (map Some xs) removeArr =
           (map Some (nths xs {n. Finite (of_nat n) \<notin> set removeArr}), None)"
proof (cases "removeArr = []")
  case True
  then show ?thesis by (simp add: deleteAt_def nths_all)
next
  case False
  have "Array_filter (\<lambda>item idx. Finite (of_nat idx) \<notin> set removeArr) (map Some xs)
      = nths xs {n. Finite (of_nat n) \<notin> set removeArr}"
    by (simp add: Array_filter_dense nths_def case_prod_unfold)
  then show ?thesis
    using deleteAt_success [of removeArr "map Some xs"] assms False by simp
qed

text \<open>
  C8. The claim is that \<^verbatim>\<open>deleteAt\<close> fails whenever a given index is outside
  \<open>[0, length)\<close>. For the index \<^verbatim>\<open>NaN\<close> both tests of \<^verbatim>\<open>index < 0 || index >= this.length\<close> are
  false: \<^verbatim>\<open>deleteAt(NaN)\<close> on \<^verbatim>\<open>[10, 20]\<close> throws nothing and removes nothing, where
  \<^verbatim>\<open>deleteAt(2)\<close> throws. The index 0.5 passes as well and removes nothing, and on
  \<^verbatim>\<open>[10, <empty>, 20]\<close> \<^verbatim>\<open>deleteAt(0)\<close> leaves \<^verbatim>\<open>[20]\<close>.
\<close>

theorem deleteAt_NaN_index:
  "deleteAt [Some (10::int), Some 20] [NaN] = ([Some 10, Some 20], None) \<and>
   deleteAt [Some (10::int), Some 20] [Finite 2] = ([Some 10, Some 20], Some (IndexOutOfBounds (Finite 2))) \<and>
   deleteAt [Some (10::int), Some 20] [Finite (1/2)] = ([Some 10, Some 20], None) \<and>
   deleteAt [Some (10::int), None, Some 20] [Finite 0] = ([Some 20], None)"
  by (simp add: deleteAt_def Set_values_def Array_filter_def upt_rec numeral_2_eq_2 numeral_3_eq_3)

section \<open>delete\<close>

lemma delete_filter: "AList.delete k c = filter (\<lambda>e. fst e \<noteq> k) c"
  by (induction c) auto

lemma filter_absent_key: "k \<notin> fst ` set c \<Longrightarrow> filter (\<lambda>e. fst e \<noteq> k) c = c"
  by (induction c) auto

lemma length_delete_present:
  "distinct (map fst c) \<Longrightarrow> k \<in> fst ` set c \<Longrightarrow> length (AList.delete k c) + 1 = length c"
proof (induction c)
  case Nil
  then show ?case by simp
next
  case (Cons e c)
  show ?case
  proof (cases "fst e = k")
    case True
    with Cons.prems have "k \<notin> fst ` set c" by auto
    then show ?thesis using True by (simp add: delete_filter filter_absent_key)
  next
    case False
    with Cons show ?thesis by (auto simp: delete_filter)
  qed
qed

lemma delete_middle:
  assumes "distinct (map fst (pre @ (k, v) # rest))"
  shows "AList.delete k (pre @ (k, v) # rest) = pre @ rest"
proof -
  from assms have "k \<notin> fst ` set pre" "k \<notin> fst ` set rest" by auto
  then show ?thesis by (simp add: delete_filter filter_absent_key)
qed

lemma delete_keys_literal:
  "distinct (map fst c) \<Longrightarrow>
   delete_keys (map Key ks) c d =
     (filter (\<lambda>e. fst e \<notin> set ks) c, d + (length c - length (filter (\<lambda>e. fst e \<notin> set ks) c)))"
proof (induction ks arbitrary: c d)
  case Nil
  then show ?case by simp
next
  case (Cons k ks)
  let ?c1 = "AList.delete k c"
  have f: "filter (\<lambda>e. fst e \<notin> set ks) ?c1 = filter (\<lambda>e. fst e \<notin> set (k # ks)) c"
    by (auto simp: delete_filter intro: filter_cong)
  show ?case
  proof (cases "k \<in> fst ` set c")
    case True
    have d1: "distinct (map fst ?c1)" using Cons.prems by (simp add: distinct_delete)
    have l: "length ?c1 + 1 = length c" using Cons.prems True by (rule length_delete_present)
    have le: "length (filter (\<lambda>e. fst e \<notin> set ks) ?c1) \<le> length ?c1" by simp
    show ?thesis
      using True Cons.IH [OF d1, of "d + 1"] f l le
      by (simp add: Containor_has_def Map_has_def Map_delete_def)
  next
    case False
    then have "?c1 = c" by simp
    with f have f': "filter (\<lambda>e. fst e \<notin> set (k # ks)) c = filter (\<lambda>e. fst e \<notin> set ks) c" by simp
    show ?thesis
      using False Cons.IH [OF Cons.prems, of d] f'
      by (simp add: Containor_has_def Map_has_def Map_delete_def)
  qed
qed

lemma delete_by_func_pointwise:
  assumes "distinct (map fst (pre @ xs))" and "delete_by_func f xs (pre @ xs) d = (c', n)"
  shows "\<exists>kept. c' = pre @ kept \<and> kept = filter (\<lambda>e. e \<in> set kept) xs \<and>
           n + length kept = d + length xs \<and>
           (\<forall>i<length xs. (xs ! i \<notin> set kept) =
              f JUndefined (snd (xs ! i)) (fst (xs ! i))
                (pre @ filter (\<lambda>e. e \<in> set kept) (take i xs) @ drop i xs)
                (d + length (filter (\<lambda>e. e \<notin> set kept) (take i xs))))"
  using assms
proof (induction xs arbitrary: pre d)
  case Nil
  then show ?case by simp
next
  case (Cons x rest)
  obtain k v where x: "x = (k, v)" by (cases x)
  have knot: "k \<notin> fst ` set rest" "k \<notin> fst ` set pre"
    using Cons.prems(1) x by (auto simp: image_iff)
  show ?case
  proof (cases "f JUndefined v k (pre @ x # rest) d")
    case True
    have del: "fst (Map_delete (pre @ x # rest) k) = pre @ rest"
      using Cons.prems(1) x by (simp add: Map_delete_def delete_middle)
    have run: "delete_by_func f rest (pre @ rest) (d + 1) = (c', n)"
      using Cons.prems(2) True x del by simp
    have dist: "distinct (map fst (pre @ rest))" using Cons.prems(1) by simp
    from Cons.IH [OF dist run] obtain kept where
      k1: "c' = pre @ kept" and k2: "kept = filter (\<lambda>e. e \<in> set kept) rest" and
      k3: "n + length kept = d + 1 + length rest" and
      k4: "\<forall>i<length rest. (rest ! i \<notin> set kept) =
              f JUndefined (snd (rest ! i)) (fst (rest ! i))
                (pre @ filter (\<lambda>e. e \<in> set kept) (take i rest) @ drop i rest)
                (d + 1 + length (filter (\<lambda>e. e \<notin> set kept) (take i rest)))"
      by blast
    have sub: "set kept \<subseteq> set rest" using k2 by (metis filter_is_subset)
    have xnot: "x \<notin> set kept" using sub knot(1) x by force
    have "kept = filter (\<lambda>e. e \<in> set kept) (x # rest)" using k2 xnot by simp
    moreover have "n + length kept = d + length (x # rest)" using k3 by simp
    moreover have "\<forall>i<length (x # rest). ((x # rest) ! i \<notin> set kept) =
              f JUndefined (snd ((x # rest) ! i)) (fst ((x # rest) ! i))
                (pre @ filter (\<lambda>e. e \<in> set kept) (take i (x # rest)) @ drop i (x # rest))
                (d + length (filter (\<lambda>e. e \<notin> set kept) (take i (x # rest))))"
    proof (intro allI impI)
      fix i assume "i < length (x # rest)"
      show "((x # rest) ! i \<notin> set kept) =
              f JUndefined (snd ((x # rest) ! i)) (fst ((x # rest) ! i))
                (pre @ filter (\<lambda>e. e \<in> set kept) (take i (x # rest)) @ drop i (x # rest))
                (d + length (filter (\<lambda>e. e \<notin> set kept) (take i (x # rest))))"
      proof (cases i)
        case 0
        then show ?thesis using True xnot x by simp
      next
        case (Suc j)
        with \<open>i < length (x # rest)\<close> have "j < length rest" by simp
        with k4 show ?thesis using Suc xnot by simp
      qed
    qed
    ultimately show ?thesis using k1 by blast
  next
    case False
    have run: "delete_by_func f rest ((pre @ [x]) @ rest) d = (c', n)"
      using Cons.prems(2) False x by simp
    have dist: "distinct (map fst ((pre @ [x]) @ rest))" using Cons.prems(1) by simp
    from Cons.IH [OF dist run] obtain kept where
      k1: "c' = (pre @ [x]) @ kept" and k2: "kept = filter (\<lambda>e. e \<in> set kept) rest" and
      k3: "n + length kept = d + length rest" and
      k4: "\<forall>i<length rest. (rest ! i \<notin> set kept) =
              f JUndefined (snd (rest ! i)) (fst (rest ! i))
                ((pre @ [x]) @ filter (\<lambda>e. e \<in> set kept) (take i rest) @ drop i rest)
                (d + length (filter (\<lambda>e. e \<notin> set kept) (take i rest)))"
      by blast
    have xrest: "x \<notin> set rest" using knot(1) x by (auto simp: image_iff)
    have fk: "\<And>ys. set ys \<subseteq> set rest \<Longrightarrow>
        filter (\<lambda>e. e \<in> set (x # kept)) ys = filter (\<lambda>e. e \<in> set kept) ys"
      using xrest by (auto intro!: filter_cong)
    have fn: "\<And>ys. set ys \<subseteq> set rest \<Longrightarrow>
        filter (\<lambda>e. e \<notin> set (x # kept)) ys = filter (\<lambda>e. e \<notin> set kept) ys"
      using xrest by (auto intro!: filter_cong)
    have "c' = pre @ (x # kept)" using k1 by simp
    moreover have "x # kept = filter (\<lambda>e. e \<in> set (x # kept)) (x # rest)"
      using k2 fk [of rest] by simp
    moreover have "n + length (x # kept) = d + length (x # rest)" using k3 by simp
    moreover have "\<forall>i<length (x # rest). ((x # rest) ! i \<notin> set (x # kept)) =
              f JUndefined (snd ((x # rest) ! i)) (fst ((x # rest) ! i))
                (pre @ filter (\<lambda>e. e \<in> set (x # kept)) (take i (x # rest)) @ drop i (x # rest))
                (d + length (filter (\<lambda>e. e \<notin> set (x # kept)) (take i (x # rest))))"
    proof (intro allI impI)
      fix i assume "i < length (x # rest)"
      show "((x # rest) ! i \<notin> set (x # kept)) =
              f JUndefined (snd ((x # rest) ! i)) (fst ((x # rest) ! i))
                (pre @ filter (\<lambda>e. e \<in> set (x # kept)) (take i (x # rest)) @ drop i (x # rest))
                (d + length (filter (\<lambda>e. e \<notin> set (x # kept)) (take i (x # rest))))"
      proof (cases i)
        case 0
        then show ?thesis using False x by simp
      next
        case (Suc j)
        with \<open>i < length (x # rest)\<close> have j: "j < length rest" by simp
        then have "rest ! j \<noteq> x" using xrest by (metis nth_mem)
        moreover have "set (take j rest) \<subseteq> set rest" by (rule set_take_subset)
        ultimately show ?thesis using k4 j Suc fk [of "take j rest"] fn [of "take j rest"]
          by simp
      qed
    qed
    ultimately show ?thesis by blast
  qed
qed


lemma delete_by_func_whole:
  assumes "distinct (map fst c)" and "delete_by_func f c c 0 = (c', n)"
  shows "n = length c - length c' \<and> c' = filter (\<lambda>e. e \<in> set c') c \<and>
         (\<forall>i<length c. (c ! i \<notin> set c') =
            f JUndefined (snd (c ! i)) (fst (c ! i))
              (filter (\<lambda>e. e \<in> set c') (take i c) @ drop i c)
              (length (filter (\<lambda>e. e \<notin> set c') (take i c))))"
proof -
  from delete_by_func_pointwise [of "[]" c f 0 c' n] assms
  obtain kept where "c' = kept" and "kept = filter (\<lambda>e. e \<in> set kept) c"
    and "n + length kept = length c"
    and "\<forall>i<length c. (c ! i \<notin> set kept) =
              f JUndefined (snd (c ! i)) (fst (c ! i))
                (filter (\<lambda>e. e \<in> set kept) (take i c) @ drop i c)
                (length (filter (\<lambda>e. e \<notin> set kept) (take i c)))"
    by auto
  then show ?thesis by auto
qed

text \<open>
  C1, as the code has it, for a container with distinct keys.
  \<^item> \<^verbatim>\<open>delete(k)\<close> with one key that is present removes its entry, the length goes down by
    exactly 1, and the call returns the boolean \<^verbatim>\<open>true\<close>; with a key that is absent the
    container is unchanged and the call returns the boolean \<^verbatim>\<open>false\<close>.
  \<^item> \<^verbatim>\<open>delete(k1, ..., kn)\<close> with no key or with two and more removes every entry whose key
    is given and returns the number of entries removed.
  \<^item> \<^verbatim>\<open>delete(f)\<close> with a predicate returns the number of entries removed, keeps the other
    entries in their order, and removes the entry at position \<open>i\<close> exactly when the
    predicate holds for its value, its key, the container as it is at that moment (the
    entries kept among the first \<open>i\<close>, then the entries from \<open>i\<close> on) and the number of
    entries removed among the first \<open>i\<close>.
\<close>

theorem delete_contract:
  assumes "distinct (map fst c)"
  shows
   "(Map_has c k \<longrightarrow>
       Containor_delete c [Key k] = (filter (\<lambda>e. fst e \<noteq> k) c, Deleted True) \<and>
       length (filter (\<lambda>e. fst e \<noteq> k) c) + 1 = length c \<and>
       \<not> Map_has (filter (\<lambda>e. fst e \<noteq> k) c) k) \<and>
    (\<not> Map_has c k \<longrightarrow> Containor_delete c [Key k] = (c, Deleted False)) \<and>
    (length ks \<noteq> 1 \<longrightarrow>
       Containor_delete c (map Key ks) =
         (filter (\<lambda>e. fst e \<notin> set ks) c,
          DeletedCount (length c - length (filter (\<lambda>e. fst e \<notin> set ks) c)))) \<and>
    (\<forall>c' r. Containor_delete c (Func f # rest) = (c', r) \<longrightarrow>
       r = DeletedCount (length c - length c') \<and>
       c' = filter (\<lambda>e. e \<in> set c') c \<and>
       (\<forall>i<length c. (c ! i \<notin> set c') =
          f JUndefined (snd (c ! i)) (fst (c ! i))
            (filter (\<lambda>e. e \<in> set c') (take i c) @ drop i c)
            (length (filter (\<lambda>e. e \<notin> set c') (take i c)))))"
proof (intro conjI impI allI)
  assume h: "Map_has c k"
  show "Containor_delete c [Key k] = (filter (\<lambda>e. fst e \<noteq> k) c, Deleted True)"
    using h by (simp add: Map_delete_def delete_filter)
  show "length (filter (\<lambda>e. fst e \<noteq> k) c) + 1 = length c"
    using length_delete_present [of c k] assms h by (simp add: Map_has_def delete_filter)
  show "\<not> Map_has (filter (\<lambda>e. fst e \<noteq> k) c) k"
    by (auto simp: Map_has_def)
next
  assume "\<not> Map_has c k"
  then show "Containor_delete c [Key k] = (c, Deleted False)"
    by (simp add: Map_delete_def Map_has_def)
next
  assume "length ks \<noteq> 1"
  then have "Containor_delete c (map Key ks) =
      (case delete_keys (map Key ks) c 0 of (c', deleted) \<Rightarrow> (c', DeletedCount deleted))"
    by (cases ks rule: list.exhaust; cases "tl ks") auto
  then show "Containor_delete c (map Key ks) =
         (filter (\<lambda>e. fst e \<notin> set ks) c,
          DeletedCount (length c - length (filter (\<lambda>e. fst e \<notin> set ks) c)))"
    using delete_keys_literal [OF assms, of ks 0] by simp
next
  fix c' r
  assume run: "Containor_delete c (Func f # rest) = (c', r)"
  obtain n where n: "delete_by_func f c c 0 = (c', n)" and r: "r = DeletedCount n"
    using run by (cases "delete_by_func f c c 0") auto
  note w = delete_by_func_whole [OF assms n]
  show "r = DeletedCount (length c - length c')" using w r by simp
  show "c' = filter (\<lambda>e. e \<in> set c') c" using w by simp
  fix i assume "i < length c"
  then show "(c ! i \<notin> set c') =
          f JUndefined (snd (c ! i)) (fst (c ! i))
            (filter (\<lambda>e. e \<in> set c') (take i c) @ drop i c)
            (length (filter (\<lambda>e. e \<notin> set c') (take i c)))"
    using w by simp
qed

text \<open>
  The theorem on the container \<^verbatim>\<open>{a: 1, b: 2, c: 3}\<close>: \<^verbatim>\<open>delete('b')\<close>, \<^verbatim>\<open>delete('z')\<close>,
  \<^verbatim>\<open>delete('c', 'z', 'a')\<close> and \<^verbatim>\<open>delete((v, k, c, deleted) => deleted < 2)\<close>.
\<close>

theorem delete_contract_witness:
  "Containor_delete [(JStr ''a'', JNum 1), (JStr ''b'', JNum 2), (JStr ''c'', JNum 3)] [Key (JStr ''b'')]
     = ([(JStr ''a'', JNum 1), (JStr ''c'', JNum 3)], Deleted True) \<and>
   Containor_delete [(JStr ''a'', JNum 1), (JStr ''b'', JNum 2), (JStr ''c'', JNum 3)] [Key (JStr ''z'')]
     = ([(JStr ''a'', JNum 1), (JStr ''b'', JNum 2), (JStr ''c'', JNum 3)], Deleted False) \<and>
   Containor_delete [(JStr ''a'', JNum 1), (JStr ''b'', JNum 2), (JStr ''c'', JNum 3)]
       (map Key [JStr ''c'', JStr ''z'', JStr ''a''])
     = ([(JStr ''b'', JNum 2)], DeletedCount 2) \<and>
   Containor_delete [(JStr ''a'', JNum 1), (JStr ''b'', JNum 2), (JStr ''c'', JNum 3)]
       [Func (\<lambda>this v key c deleted. deleted < 2)]
     = ([(JStr ''c'', JNum 3)], DeletedCount 2)"
proof -
  let ?c = "[(JStr ''a'', JNum 1), (JStr ''b'', JNum 2), (JStr ''c'', JNum 3)]"
  have d: "distinct (map fst ?c)" by simp
  have p: "Containor_delete ?c [Func (\<lambda>this v key c deleted. deleted < 2)]
     = ([(JStr ''c'', JNum 3)], DeletedCount 2)"
    by (simp add: Map_delete_def)
  show ?thesis
    using delete_contract [OF d, of "JStr ''b''" "[JStr ''c'', JStr ''z'', JStr ''a'']"
        "\<lambda>this v key c deleted. deleted < 2" "[]"]
      delete_contract [OF d, of "JStr ''z''" "[]" "\<lambda>this v key c deleted. deleted < 2" "[]"] p
    by (simp add: Map_has_def)
qed

text \<open>
  Where the claim as written fails: \<^verbatim>\<open>delete('a')\<close> returns \<^verbatim>\<open>true\<close> on \<^verbatim>\<open>{a: 1}\<close> and \<^verbatim>\<open>false\<close>
  on the empty container, the result of \<^verbatim>\<open>super.delete\<close>, and not the counts 1 and 0.
\<close>

theorem delete_contract_counterexample:
  "Containor_delete [(JStr ''a'', JNum 1)] [Key (JStr ''a'')] = ([], Deleted True) \<and>
   Containor_delete [(JStr ''a'', JNum 1)] [Key (JStr ''a'')] \<noteq> ([], DeletedCount 1) \<and>
   Containor_delete [] [Key (JStr ''a'')] = ([], Deleted False) \<and>
   Containor_delete [] [Key (JStr ''a'')] \<noteq> ([], DeletedCount 0)"
  by (simp add: Map_delete_def Map_has_def)

section \<open>sort\<close>

lemma set_insert_by [simp]: "set (insert_by c x ys) = insert x (set ys)"
  by (induction ys) auto

lemma mset_insert_by [simp]: "mset (insert_by c x ys) = add_mset x (mset ys)"
  by (induction ys) auto

lemma mset_foldl_insert_by:
  "mset (foldl (\<lambda>sorted x. insert_by c x sorted) acc xs) = mset acc + mset xs"
  by (induction xs arbitrary: acc) auto

lemma mset_Array_sort [simp]: "mset (Array_sort c xs) = mset xs"
  by (simp add: Array_sort_def mset_foldl_insert_by)

lemma insert_by_last:
  "\<forall>y\<in>set ys. \<not> c x y < 0 \<Longrightarrow> insert_by c x ys = ys @ [x]"
  by (induction ys) auto

lemma foldl_insert_by_sorted_id:
  "sorted_wrt (\<lambda>a b. \<not> c b a < 0) (acc @ xs) \<Longrightarrow>
   foldl (\<lambda>sorted x. insert_by c x sorted) acc xs = acc @ xs"
proof (induction xs arbitrary: acc)
  case Nil
  then show ?case by simp
next
  case (Cons x xs)
  from Cons.prems have "\<forall>y\<in>set acc. \<not> c x y < 0"
    by (auto simp: sorted_wrt_append)
  then have "insert_by c x acc = acc @ [x]" by (rule insert_by_last)
  moreover have "sorted_wrt (\<lambda>a b. \<not> c b a < 0) ((acc @ [x]) @ xs)"
    using Cons.prems by simp
  ultimately show ?case using Cons.IH [of "acc @ [x]"] by simp
qed

lemma Array_sort_sorted_id:
  "sorted_wrt (\<lambda>a b. \<not> c b a < 0) xs \<Longrightarrow> Array_sort c xs = xs"
  using foldl_insert_by_sorted_id [of c "[]" xs] by (simp add: Array_sort_def)

lemma insert_by_sorted:
  assumes asym: "\<forall>a\<in>S. \<forall>b\<in>S. c a b < 0 \<longrightarrow> \<not> c b a < 0"
    and trans: "\<forall>a\<in>S. \<forall>b\<in>S. \<forall>d\<in>S. c a b < 0 \<and> c b d < 0 \<longrightarrow> c a d < 0"
    and "x \<in> S" and "set ys \<subseteq> S" and "sorted_wrt (\<lambda>a b. \<not> c b a < 0) ys"
  shows "sorted_wrt (\<lambda>a b. \<not> c b a < 0) (insert_by c x ys)"
  using assms(3-)
proof (induction ys)
  case Nil
  then show ?case by simp
next
  case (Cons y ys)
  show ?case
  proof (cases "c x y < 0")
    case True
    have "\<not> c y x < 0" using asym True Cons.prems by auto
    moreover have "\<forall>z\<in>set ys. \<not> c z x < 0"
    proof
      fix z assume z: "z \<in> set ys"
      show "\<not> c z x < 0"
      proof
        assume "c z x < 0"
        with True trans z Cons.prems(1,2) have "c z y < 0" by (meson list.set_intros subsetD)
        moreover have "\<not> c z y < 0" using Cons.prems(3) z by simp
        ultimately show False by simp
      qed
    qed
    ultimately show ?thesis using True Cons.prems(3) by simp
  next
    case False
    then show ?thesis using Cons by auto
  qed
qed

lemma foldl_insert_by_sorted:
  assumes asym: "\<forall>a\<in>S. \<forall>b\<in>S. c a b < 0 \<longrightarrow> \<not> c b a < 0"
    and trans: "\<forall>a\<in>S. \<forall>b\<in>S. \<forall>d\<in>S. c a b < 0 \<and> c b d < 0 \<longrightarrow> c a d < 0"
  shows "set acc \<subseteq> S \<Longrightarrow> set xs \<subseteq> S \<Longrightarrow> sorted_wrt (\<lambda>a b. \<not> c b a < 0) acc \<Longrightarrow>
         sorted_wrt (\<lambda>a b. \<not> c b a < 0) (foldl (\<lambda>sorted x. insert_by c x sorted) acc xs)"
proof (induction xs arbitrary: acc)
  case Nil
  then show ?case by simp
next
  case (Cons x xs)
  have "sorted_wrt (\<lambda>a b. \<not> c b a < 0) (insert_by c x acc)"
    using insert_by_sorted [OF asym trans, of x acc] Cons.prems by simp
  moreover have "set (insert_by c x acc) \<subseteq> S" using Cons.prems by simp
  ultimately show ?case using Cons.IH [of "insert_by c x acc"] Cons.prems by simp
qed

lemma Array_sort_sorted:
  assumes "\<forall>a\<in>set xs. \<forall>b\<in>set xs. c a b < 0 \<longrightarrow> \<not> c b a < 0"
    and "\<forall>a\<in>set xs. \<forall>b\<in>set xs. \<forall>d\<in>set xs. c a b < 0 \<and> c b d < 0 \<longrightarrow> c a d < 0"
  shows "sorted_wrt (\<lambda>a b. \<not> c b a < 0) (Array_sort c xs)"
  using foldl_insert_by_sorted [OF assms, of "[]" xs] by (simp add: Array_sort_def)

lemma foldl_Map_set_distinct:
  "distinct (map fst (acc @ es)) \<Longrightarrow> foldl (\<lambda>c (key, v). Map_set c key v) acc es = acc @ es"
proof (induction es arbitrary: acc)
  case Nil
  then show ?case by simp
next
  case (Cons e es)
  obtain k v where e: "e = (k, v)" by (cases e)
  have "\<not> Map_has acc k" using Cons.prems e by (auto simp: Map_has_def)
  then have "Map_set acc k v = acc @ [(k, v)]" by (rule Map_set_new)
  then show ?case using Cons.IH [of "acc @ [e]"] Cons.prems e by simp
qed

lemma Map_rebuild_distinct: "distinct (map fst es) \<Longrightarrow> Map_rebuild es = es"
  using foldl_Map_set_distinct [of "[]" es] by (simp add: Map_rebuild_def)

lemma distinct_keys_mset:
  "mset ys = mset xs \<Longrightarrow> distinct (map fst xs) \<Longrightarrow> distinct (map fst ys)"
  by (metis mset_map mset_eq_imp_distinct_iff)

text \<open>
  A consistent comparator orders the classes of the elements it holds equal: what the
  insertion needs of it, and the arrangement it leaves.
\<close>

lemma consistent_refl: "consistent c S \<Longrightarrow> a \<in> S \<Longrightarrow> c a a = 0"
  unfolding consistent_def by blast

lemma consistent_sym: "consistent c S \<Longrightarrow> a \<in> S \<Longrightarrow> b \<in> S \<Longrightarrow> c a b = 0 \<Longrightarrow> c b a = 0"
  unfolding consistent_def by blast

lemma consistent_trans_eq:
  "consistent c S \<Longrightarrow> a \<in> S \<Longrightarrow> b \<in> S \<Longrightarrow> d \<in> S \<Longrightarrow> c a b = 0 \<Longrightarrow> c b d = 0 \<Longrightarrow> c a d = 0"
  unfolding consistent_def by blast

lemma consistent_trans_less:
  "consistent c S \<Longrightarrow> a \<in> S \<Longrightarrow> b \<in> S \<Longrightarrow> d \<in> S \<Longrightarrow> c a b < 0 \<Longrightarrow> c b d < 0 \<Longrightarrow> c a d < 0"
  unfolding consistent_def by blast

lemma consistent_trans_greater:
  "consistent c S \<Longrightarrow> a \<in> S \<Longrightarrow> b \<in> S \<Longrightarrow> d \<in> S \<Longrightarrow> 0 < c a b \<Longrightarrow> 0 < c b d \<Longrightarrow> 0 < c a d"
  unfolding consistent_def by blast

lemma consistent_asym:
  assumes "consistent c S" and "a \<in> S" and "b \<in> S" and "c a b < 0"
  shows "\<not> c b a < 0"
proof
  assume "c b a < 0"
  then have "c a a < 0" using consistent_trans_less [OF assms(1,2,3,2) assms(4)] by simp
  then show False using consistent_refl [OF assms(1,2)] by simp
qed

lemma consistent_less_greater:
  assumes "consistent c S" and "a \<in> S" and "b \<in> S" and "c a b < 0"
  shows "0 < c b a"
proof -
  have "\<not> c b a < 0" by (rule consistent_asym [OF assms])
  moreover have "c b a \<noteq> 0"
  proof
    assume "c b a = 0"
    then have "c a b = 0" by (rule consistent_sym [OF assms(1,3,2)])
    then show False using assms(4) by simp
  qed
  ultimately show ?thesis by linarith
qed

lemma consistent_greater_less:
  assumes "consistent c S" and "a \<in> S" and "b \<in> S" and "0 < c a b"
  shows "c b a < 0"
proof -
  have "\<not> 0 < c b a"
  proof
    assume "0 < c b a"
    then have "0 < c a a" using consistent_trans_greater [OF assms(1,2,3,2) assms(4)] by simp
    then show False using consistent_refl [OF assms(1,2)] by simp
  qed
  moreover have "c b a \<noteq> 0"
  proof
    assume "c b a = 0"
    then have "c a b = 0" by (rule consistent_sym [OF assms(1,3,2)])
    then show False using assms(4) by simp
  qed
  ultimately show ?thesis by linarith
qed

lemma consistent_not_less:
  assumes "consistent c S" and "a \<in> S" and "b \<in> S"
  shows "\<not> c b a < 0 \<longleftrightarrow> c a b \<le> 0"
proof
  assume "\<not> c b a < 0"
  then have "c b a = 0 \<or> 0 < c b a" by linarith
  then show "c a b \<le> 0"
  proof
    assume "c b a = 0"
    then have "c a b = 0" by (rule consistent_sym [OF assms(1,3,2)])
    then show ?thesis by simp
  next
    assume "0 < c b a"
    then have "c a b < 0" by (rule consistent_greater_less [OF assms(1,3,2)])
    then show ?thesis by simp
  qed
next
  assume le: "c a b \<le> 0"
  show "\<not> c b a < 0"
  proof
    assume "c b a < 0"
    then have "0 < c a b" by (rule consistent_less_greater [OF assms(1,3,2)])
    then show False using le by simp
  qed
qed

lemma consistent_less_le:
  assumes "consistent c S" and "a \<in> S" and "b \<in> S" and "d \<in> S"
    and "c a b < 0" and "c b d \<le> 0"
  shows "c a d < 0"
proof (cases "c b d < 0")
  case True
  then show ?thesis by (rule consistent_trans_less [OF assms(1,2,3,4) assms(5)])
next
  case False
  then have bd: "c b d = 0" using assms(6) by simp
  then have db: "c d b = 0" by (rule consistent_sym [OF assms(1,3,4)])
  show ?thesis
  proof (rule ccontr)
    assume "\<not> c a d < 0"
    then have "c a d = 0 \<or> 0 < c a d" by linarith
    then show False
    proof
      assume "c a d = 0"
      then have "c a b = 0" using db by (rule consistent_trans_eq [OF assms(1,2,4,3)])
      then show False using assms(5) by simp
    next
      assume "0 < c a d"
      then have "c d a < 0" by (rule consistent_greater_less [OF assms(1,2,4)])
      then have "c d b < 0" using assms(5) by (rule consistent_trans_less [OF assms(1,4,2,3)])
      then show False using db by simp
    qed
  qed
qed


lemma consistent_subset: "consistent c S \<Longrightarrow> T \<subseteq> S \<Longrightarrow> consistent c T"
  unfolding consistent_def by blast

lemma Array_sort_sorted_le:
  assumes "consistent c (set xs)"
  shows "sorted_wrt (\<lambda>a b. c a b \<le> 0) (Array_sort c xs)"
proof -
  have asym: "\<forall>a\<in>set xs. \<forall>b\<in>set xs. c a b < 0 \<longrightarrow> \<not> c b a < 0"
    using consistent_asym [OF assms] by blast
  have trans: "\<forall>a\<in>set xs. \<forall>b\<in>set xs. \<forall>d\<in>set xs. c a b < 0 \<and> c b d < 0 \<longrightarrow> c a d < 0"
    using consistent_trans_less [OF assms] by blast
  have s: "sorted_wrt (\<lambda>a b. \<not> c b a < 0) (Array_sort c xs)"
    by (rule Array_sort_sorted [OF asym trans])
  have "set (Array_sort c xs) = set xs" by (metis mset_Array_sort set_mset_mset)
  then have "\<And>a b. a \<in> set (Array_sort c xs) \<Longrightarrow> b \<in> set (Array_sort c xs) \<Longrightarrow>
      \<not> c b a < 0 \<Longrightarrow> c a b \<le> 0"
    using consistent_not_less [OF assms] by blast
  then show ?thesis by (rule sorted_wrt_mono_rel [OF _ s])
qed

lemma insert_by_stable:
  assumes con: "consistent c S" and x: "x \<in> S" and y: "y \<in> S"
  shows "set ys \<subseteq> S \<Longrightarrow> sorted_wrt (\<lambda>a b. c a b \<le> 0) ys \<Longrightarrow>
         filter (\<lambda>e. c e x = 0) (insert_by c y ys) =
           filter (\<lambda>e. c e x = 0) ys @ (if c y x = 0 then [y] else [])"
proof (induction ys)
  case Nil
  then show ?case by simp
next
  case (Cons z zs)
  have z: "z \<in> S" and zs: "set zs \<subseteq> S" using Cons.prems(1) by simp_all
  show ?case
  proof (cases "c y z < 0")
    case True
    have below: "c y w < 0" if "w \<in> set (z # zs)" for w
    proof (cases "w = z")
      case True
      then show ?thesis using \<open>c y z < 0\<close> by simp
    next
      case False
      then have w: "w \<in> set zs" using that by simp
      then have "c z w \<le> 0" using Cons.prems(2) by simp
      moreover have "w \<in> S" using w zs by blast
      ultimately show ?thesis using consistent_less_le [OF con y z _ True] by blast
    qed
    have none: "filter (\<lambda>e. c e x = 0) (z # zs) = []" if yx: "c y x = 0"
    proof -
      have "c w x \<noteq> 0" if w: "w \<in> set (z # zs)" for w
      proof
        assume "c w x = 0"
        have wS: "w \<in> S" using w Cons.prems(1) by blast
        have "c x w = 0" using \<open>c w x = 0\<close> by (rule consistent_sym [OF con wS x])
        then have "c y w = 0" using yx consistent_trans_eq [OF con y x wS] by blast
        then show False using below [OF w] by simp
      qed
      then show ?thesis by (simp only: filter_empty_conv) blast
    qed
    show ?thesis
    proof (cases "c y x = 0")
      case yx: True
      have "insert_by c y (z # zs) = y # z # zs" using True by simp
      then have "filter (\<lambda>e. c e x = 0) (insert_by c y (z # zs)) = y # filter (\<lambda>e. c e x = 0) (z # zs)"
        using yx by simp
      then show ?thesis using none [OF yx] yx by simp
    next
      case False
      then show ?thesis using True by simp
    qed
  next
    case False
    have "sorted_wrt (\<lambda>a b. c a b \<le> 0) zs" using Cons.prems(2) by simp
    from Cons.IH [OF zs this] show ?thesis using False by simp
  qed
qed

lemma insert_by_sorted_le:
  assumes con: "consistent c S" and y: "y \<in> S"
  shows "set ys \<subseteq> S \<Longrightarrow> sorted_wrt (\<lambda>a b. c a b \<le> 0) ys \<Longrightarrow>
         sorted_wrt (\<lambda>a b. c a b \<le> 0) (insert_by c y ys)"
proof (induction ys)
  case Nil
  then show ?case by simp
next
  case (Cons z zs)
  have z: "z \<in> S" and zs: "set zs \<subseteq> S" using Cons.prems(1) by simp_all
  show ?case
  proof (cases "c y z < 0")
    case True
    have "c y w \<le> 0" if "w \<in> set zs" for w
    proof -
      have "c z w \<le> 0" using Cons.prems(2) that by simp
      moreover have "w \<in> S" using that zs by blast
      ultimately have "c y w < 0" using consistent_less_le [OF con y z _ True] by blast
      then show ?thesis by simp
    qed
    then show ?thesis using True Cons.prems(2) by simp
  next
    case False
    then have zy: "c z y \<le> 0" using consistent_not_less [OF con z y] by blast
    have s: "sorted_wrt (\<lambda>a b. c a b \<le> 0) zs" using Cons.prems(2) by simp
    have "sorted_wrt (\<lambda>a b. c a b \<le> 0) (insert_by c y zs)" by (rule Cons.IH [OF zs s])
    moreover have "\<forall>w\<in>set (insert_by c y zs). c z w \<le> 0"
      using zy Cons.prems(2) by simp
    ultimately show ?thesis using False by simp
  qed
qed

lemma foldl_insert_by_stable:
  assumes con: "consistent c S" and x: "x \<in> S"
  shows "set acc \<subseteq> S \<Longrightarrow> set xs \<subseteq> S \<Longrightarrow> sorted_wrt (\<lambda>a b. c a b \<le> 0) acc \<Longrightarrow>
         filter (\<lambda>e. c e x = 0) (foldl (\<lambda>sorted y. insert_by c y sorted) acc xs) =
           filter (\<lambda>e. c e x = 0) acc @ filter (\<lambda>e. c e x = 0) xs"
proof (induction xs arbitrary: acc)
  case Nil
  then show ?case by simp
next
  case (Cons y ys)
  have y: "y \<in> S" and ys: "set ys \<subseteq> S" using Cons.prems(2) by simp_all
  have s: "sorted_wrt (\<lambda>a b. c a b \<le> 0) (insert_by c y acc)"
    by (rule insert_by_sorted_le [OF con y Cons.prems(1) Cons.prems(3)])
  have sub: "set (insert_by c y acc) \<subseteq> S" using y Cons.prems(1) by simp
  have "filter (\<lambda>e. c e x = 0) (foldl (\<lambda>sorted y. insert_by c y sorted) (insert_by c y acc) ys) =
          filter (\<lambda>e. c e x = 0) (insert_by c y acc) @ filter (\<lambda>e. c e x = 0) ys"
    by (rule Cons.IH [OF sub ys s])
  also have "filter (\<lambda>e. c e x = 0) (insert_by c y acc) =
          filter (\<lambda>e. c e x = 0) acc @ (if c y x = 0 then [y] else [])"
    by (rule insert_by_stable [OF con x y Cons.prems(1) Cons.prems(3)])
  finally show ?case by simp
qed

lemma Array_sort_stable:
  assumes "consistent c (set xs)" and "x \<in> set xs"
  shows "filter (\<lambda>e. c e x = 0) (Array_sort c xs) = filter (\<lambda>e. c e x = 0) xs"
  using foldl_insert_by_stable [OF assms, of "[]" xs] by (simp add: Array_sort_def)


lemma sorted_stable_unique:
  assumes con: "consistent c S"
  shows "set ys \<subseteq> S \<Longrightarrow> mset zs = mset ys \<Longrightarrow>
         sorted_wrt (\<lambda>a b. c a b \<le> 0) ys \<Longrightarrow> sorted_wrt (\<lambda>a b. c a b \<le> 0) zs \<Longrightarrow>
         (\<forall>x\<in>S. filter (\<lambda>e. c e x = 0) zs = filter (\<lambda>e. c e x = 0) ys) \<Longrightarrow> zs = ys"
proof (induction ys arbitrary: zs)
  case Nil
  then show ?case by simp
next
  case (Cons y ys)
  have y: "y \<in> S" and ys: "set ys \<subseteq> S" using Cons.prems(1) by simp_all
  have "zs \<noteq> []" using Cons.prems(2) by auto
  then obtain z zs' where zs: "zs = z # zs'" by (cases zs) auto
  have sets: "set (z # zs') = set (y # ys)"
    using Cons.prems(2) zs by (metis set_mset_mset)
  have z: "z \<in> S" using sets Cons.prems(1) by auto
  have yy: "c y y = 0" by (rule consistent_refl [OF con y])
  have zz: "c z z = 0" by (rule consistent_refl [OF con z])
  have "z \<in> set (y # ys)" using sets by auto
  then have yz: "c y z \<le> 0" using Cons.prems(3) yy by auto
  have "y \<in> set (z # zs')" using sets by auto
  then have zy: "c z y \<le> 0" using Cons.prems(4) zz zs by auto
  have "\<not> c z y < 0" using yz consistent_not_less [OF con y z] by blast
  then have zy0: "c z y = 0" using zy by linarith
  have "filter (\<lambda>e. c e y = 0) (z # zs') = filter (\<lambda>e. c e y = 0) (y # ys)"
    using Cons.prems(5) y zs by blast
  then have eq: "z = y" using yy zy0 by simp
  have m: "mset zs' = mset ys" using Cons.prems(2) zs eq by simp
  have s1: "sorted_wrt (\<lambda>a b. c a b \<le> 0) ys" using Cons.prems(3) by simp
  have s2: "sorted_wrt (\<lambda>a b. c a b \<le> 0) zs'" using Cons.prems(4) zs by simp
  have f: "\<forall>x\<in>S. filter (\<lambda>e. c e x = 0) zs' = filter (\<lambda>e. c e x = 0) ys"
  proof
    fix x assume "x \<in> S"
    then have "filter (\<lambda>e. c e x = 0) (y # zs') = filter (\<lambda>e. c e x = 0) (y # ys)"
      using Cons.prems(5) zs eq by blast
    then show "filter (\<lambda>e. c e x = 0) zs' = filter (\<lambda>e. c e x = 0) ys"
      by (cases "c y x = 0") simp_all
  qed
  have "zs' = ys" by (rule Cons.IH [OF ys m s1 s2 f])
  then show ?case using zs eq by simp
qed

lemma Array_sort_unique:
  assumes con: "consistent c (set xs)"
    and m: "mset zs = mset xs"
    and s: "sorted_wrt (\<lambda>a b. c a b \<le> 0) zs"
    and f: "\<forall>x\<in>set xs. filter (\<lambda>e. c e x = 0) zs = filter (\<lambda>e. c e x = 0) xs"
  shows "zs = Array_sort c xs"
proof -
  have sub: "set (Array_sort c xs) \<subseteq> set xs" by (metis mset_Array_sort set_mset_mset subset_refl)
  have m': "mset zs = mset (Array_sort c xs)" using m by simp
  have f': "\<forall>x\<in>set xs. filter (\<lambda>e. c e x = 0) zs = filter (\<lambda>e. c e x = 0) (Array_sort c xs)"
    using f Array_sort_stable [OF con] by simp
  show ?thesis
    by (rule sorted_stable_unique [OF con sub m' Array_sort_sorted_le [OF con] s f'])
qed

text \<open>
  C7, as the code has it. Let the container have distinct keys and let the comparator be
  consistent on its entries. Then \<^verbatim>\<open>sort(func)\<close> succeeds and leaves the same entries in
  ascending order, the entries that the comparator holds equal in the order they had; no
  other arrangement of the entries is sorted in this way; and a second \<^verbatim>\<open>sort(func)\<close> with
  the same comparator leaves the order as it is.
\<close>

theorem sort_idempotent:
  assumes "distinct (map fst c)"
    and "consistent (\<lambda>a b. f arg (snd a) (snd b) (fst a) (fst b)) (set c)"
  shows "\<exists>c1. Containor_sort c (Some f) arg = (c1, None) \<and>
           mset c1 = mset c \<and>
           sorted_wrt (\<lambda>a b. f arg (snd a) (snd b) (fst a) (fst b) \<le> 0) c1 \<and>
           (\<forall>x\<in>set c. filter (\<lambda>e. f arg (snd e) (snd x) (fst e) (fst x) = 0) c1 =
                        filter (\<lambda>e. f arg (snd e) (snd x) (fst e) (fst x) = 0) c) \<and>
           (\<forall>zs. mset zs = mset c \<and>
                 sorted_wrt (\<lambda>a b. f arg (snd a) (snd b) (fst a) (fst b) \<le> 0) zs \<and>
                 (\<forall>x\<in>set c. filter (\<lambda>e. f arg (snd e) (snd x) (fst e) (fst x) = 0) zs =
                              filter (\<lambda>e. f arg (snd e) (snd x) (fst e) (fst x) = 0) c)
                 \<longrightarrow> zs = c1) \<and>
           Containor_sort c1 (Some f) arg = (c1, None)"
proof -
  let ?cmp = "\<lambda>a b. f arg (snd a) (snd b) (fst a) (fst b)"
  let ?c1 = "Array_sort ?cmp c"
  note con = assms(2)
  have m: "mset ?c1 = mset c" by simp
  have d1: "distinct (map fst ?c1)" using m assms(1) by (rule distinct_keys_mset)
  have asym: "\<forall>a\<in>set c. \<forall>b\<in>set c. ?cmp a b < 0 \<longrightarrow> \<not> ?cmp b a < 0"
    using consistent_asym [OF con] by blast
  have trans: "\<forall>a\<in>set c. \<forall>b\<in>set c. \<forall>d\<in>set c. ?cmp a b < 0 \<and> ?cmp b d < 0 \<longrightarrow> ?cmp a d < 0"
    using consistent_trans_less [OF con] by blast
  have s: "sorted_wrt (\<lambda>a b. \<not> ?cmp b a < 0) ?c1"
    by (rule Array_sort_sorted [of c ?cmp, OF asym trans])
  have sle: "sorted_wrt (\<lambda>a b. ?cmp a b \<le> 0) ?c1"
    by (rule Array_sort_sorted_le [OF con])
  have st: "\<forall>x\<in>set c. filter (\<lambda>e. ?cmp e x = 0) ?c1 = filter (\<lambda>e. ?cmp e x = 0) c"
  proof
    fix x assume "x \<in> set c"
    then show "filter (\<lambda>e. ?cmp e x = 0) ?c1 = filter (\<lambda>e. ?cmp e x = 0) c"
      by (rule Array_sort_stable [OF con])
  qed
  have un: "\<forall>zs. mset zs = mset c \<and> sorted_wrt (\<lambda>a b. ?cmp a b \<le> 0) zs \<and>
                 (\<forall>x\<in>set c. filter (\<lambda>e. ?cmp e x = 0) zs = filter (\<lambda>e. ?cmp e x = 0) c)
                 \<longrightarrow> zs = ?c1"
  proof (intro allI impI)
    fix zs
    assume a: "mset zs = mset c \<and> sorted_wrt (\<lambda>a b. ?cmp a b \<le> 0) zs \<and>
                 (\<forall>x\<in>set c. filter (\<lambda>e. ?cmp e x = 0) zs = filter (\<lambda>e. ?cmp e x = 0) c)"
    show "zs = ?c1"
      by (rule Array_sort_unique [OF con conjunct1 [OF a] conjunct1 [OF conjunct2 [OF a]]
            conjunct2 [OF conjunct2 [OF a]]])
  qed
  have first: "Containor_sort c (Some f) arg = (?c1, None)"
    using d1 by (simp add: Containor_sort_def Map_rebuild_distinct)
  have again: "Array_sort ?cmp ?c1 = ?c1"
    using s by (rule Array_sort_sorted_id)
  have second: "Containor_sort ?c1 (Some f) arg = (?c1, None)"
    using d1 again by (simp add: Containor_sort_def Map_rebuild_distinct)
  show ?thesis
  proof (intro exI conjI)
    show "Containor_sort c (Some f) arg = (?c1, None)" by (rule first)
    show "mset ?c1 = mset c" by (rule m)
    show "sorted_wrt (\<lambda>a b. ?cmp a b \<le> 0) ?c1" by (rule sle)
    show "\<forall>x\<in>set c. filter (\<lambda>e. ?cmp e x = 0) ?c1 = filter (\<lambda>e. ?cmp e x = 0) c" by (rule st)
    show "\<forall>zs. mset zs = mset c \<and> sorted_wrt (\<lambda>a b. ?cmp a b \<le> 0) zs \<and>
                 (\<forall>x\<in>set c. filter (\<lambda>e. ?cmp e x = 0) zs = filter (\<lambda>e. ?cmp e x = 0) c)
                 \<longrightarrow> zs = ?c1" by (rule un)
    show "Containor_sort ?c1 (Some f) arg = (?c1, None)" by (rule second)
  qed
qed

text \<open>
  Where the claim as written fails: the comparator \<^verbatim>\<open>() => -1\<close> puts every entry before
  every other. On \<^verbatim>\<open>{a: 1, b: 2}\<close> the first \<^verbatim>\<open>sort\<close> gives \<^verbatim>\<open>{b: 2, a: 1}\<close> and the second
  gives \<^verbatim>\<open>{a: 1, b: 2}\<close> again: the second call changes the order.
\<close>

theorem sort_idempotent_counterexample:
  "Containor_sort [(JStr ''a'', JNum 1), (JStr ''b'', JNum 2)] (Some (\<lambda>this a b keyA keyB. - 1)) JUndefined
     = ([(JStr ''b'', JNum 2), (JStr ''a'', JNum 1)], None) \<and>
   Containor_sort [(JStr ''b'', JNum 2), (JStr ''a'', JNum 1)] (Some (\<lambda>this a b keyA keyB. - 1)) JUndefined
     = ([(JStr ''a'', JNum 1), (JStr ''b'', JNum 2)], None)"
  by (simp add: Containor_sort_def Array_sort_def Map_rebuild_def Map_set_def)

text \<open>
  The theorem on \<^verbatim>\<open>{a: 3, b: 1, c: 2, d: 1}\<close> with the comparator \<^verbatim>\<open>(x, y) => x - y\<close> on
  numbers, which holds \<^verbatim>\<open>b\<close> and \<^verbatim>\<open>d\<close> equal.
\<close>

theorem sort_idempotent_witness:
  "Containor_sort [(JStr ''a'', JNum 3), (JStr ''b'', JNum 1), (JStr ''c'', JNum 2), (JStr ''d'', JNum 1)]
      (Some (\<lambda>this a b keyA keyB. case (a, b) of (JNum x, JNum y) \<Rightarrow> x - y | _ \<Rightarrow> 0)) JUndefined
     = ([(JStr ''b'', JNum 1), (JStr ''d'', JNum 1), (JStr ''c'', JNum 2), (JStr ''a'', JNum 3)], None) \<and>
   Containor_sort [(JStr ''b'', JNum 1), (JStr ''d'', JNum 1), (JStr ''c'', JNum 2), (JStr ''a'', JNum 3)]
      (Some (\<lambda>this a b keyA keyB. case (a, b) of (JNum x, JNum y) \<Rightarrow> x - y | _ \<Rightarrow> 0)) JUndefined
     = ([(JStr ''b'', JNum 1), (JStr ''d'', JNum 1), (JStr ''c'', JNum 2), (JStr ''a'', JNum 3)], None)"
proof -
  let ?f = "\<lambda>(this::jsval) a b (keyA::jsval) (keyB::jsval). case (a, b) of (JNum x, JNum y) \<Rightarrow> x - y | _ \<Rightarrow> (0::int)"
  let ?c = "[(JStr ''a'', JNum 3), (JStr ''b'', JNum 1), (JStr ''c'', JNum 2), (JStr ''d'', JNum 1)]"
  have e: "Containor_sort ?c (Some ?f) JUndefined
     = ([(JStr ''b'', JNum 1), (JStr ''d'', JNum 1), (JStr ''c'', JNum 2), (JStr ''a'', JNum 3)], None)"
    by (simp add: Containor_sort_def Array_sort_def Map_rebuild_def Map_set_def)
  have d: "distinct (map fst ?c)" by simp
  have con: "consistent (\<lambda>a b. ?f JUndefined (snd a) (snd b) (fst a) (fst b)) (set ?c)"
    by (simp add: consistent_def)
  from sort_idempotent [of ?c ?f JUndefined, OF d con]
  obtain c1 where "Containor_sort ?c (Some ?f) JUndefined = (c1, None)"
    and "Containor_sort c1 (Some ?f) JUndefined = (c1, None)"
    by blast
  with e show ?thesis by simp
qed

section \<open>Containers in the store\<close>

lemma set_at_frame:
  "set_at h a key v = (h', e) \<Longrightarrow> length h' = length h \<and> (\<forall>b. b \<noteq> a \<longrightarrow> h' ! b = h ! b)"
  by (auto simp: set_at_def split: prod.splits)


lemma from_loop_frame:
  "from_loop h a src = (h', e) \<Longrightarrow> length h' = length h \<and> (\<forall>b. b \<noteq> a \<longrightarrow> h' ! b = h ! b)"
proof (induction src arbitrary: h)
  case Nil
  then show ?case by simp
next
  case (Cons x src)
  obtain key v where x: "x = (key, v)" by (cases x)
  let ?step = "if is_plainObject v \<and> has_property ''key'' v \<and> has_property ''value'' v
            then set_at h a (get_property ''key'' v) (get_property ''value'' v)
            else set_at h a key v"
  obtain h1 e1 where s: "?step = (h1, e1)" by (cases ?step)
  have f1: "length h1 = length h \<and> (\<forall>b. b \<noteq> a \<longrightarrow> h1 ! b = h ! b)"
    using s set_at_frame by (auto split: if_splits)
  show ?case
  proof (cases e1)
    case None
    then have "from_loop h1 a src = (h', e)" using Cons.prems x s by simp
    from Cons.IH [OF this] f1 show ?thesis by simp
  next
    case (Some err)
    then have "h' = h1" using Cons.prems x s by simp
    with f1 show ?thesis by simp
  qed
qed



lemma Containor_from_frame:
  assumes "Containor_from h src = (h', r)"
  shows "take (length h) h' = h \<and> length h' = length h + 1 \<and> (\<forall>a. r = Inr a \<longrightarrow> a = length h)"
proof -
  obtain h2 e where l: "from_loop (h @ [[]]) (length h) src = (h2, e)"
    by (cases "from_loop (h @ [[]]) (length h) src")
  from from_loop_frame [OF l] have len: "length h2 = length h + 1"
    and same: "\<forall>b. b \<noteq> length h \<longrightarrow> h2 ! b = (h @ [[]]) ! b" by auto
  have "take (length h) h2 = h"
    using len same by (intro nth_equalityI) (auto simp: nth_append)
  moreover have "h' = h2" "\<forall>a. r = Inr a \<longrightarrow> a = length h"
    using assms l by (auto simp: Containor_from_def new_Containor_def split: option.splits)
  ultimately show ?thesis using len by simp
qed

section \<open>filter, partition and slice leave the receiver alone\<close>

lemma filter_loop_frame:
  "filter_loop f arg this results es h = (h', e) \<Longrightarrow>
   length h' = length h \<and> (\<forall>b. b \<noteq> results \<longrightarrow> h' ! b = h ! b)"
proof (induction es arbitrary: h)
  case Nil
  then show ?case by simp
next
  case (Cons x es)
  obtain key v where x: "x = (key, v)" by (cases x)
  show ?case
  proof (cases "f arg v key (h ! this)")
    case False
    then have "filter_loop f arg this results es h = (h', e)" using Cons.prems x by simp
    from Cons.IH [OF this] show ?thesis .
  next
    case True
    obtain h1 e1 where s: "set_at h results key v = (h1, e1)" by (cases "set_at h results key v")
    note f1 = set_at_frame [OF s]
    show ?thesis
    proof (cases e1)
      case None
      then have "filter_loop f arg this results es h1 = (h', e)" using Cons.prems x s True by simp
      from Cons.IH [OF this] f1 show ?thesis by simp
    next
      case (Some err)
      then have "h' = h1" using Cons.prems x s True by simp
      with f1 show ?thesis by simp
    qed
  qed
qed

lemma partition_loop_frame:
  "partition_loop f arg this r0 r1 es h = (h', e) \<Longrightarrow>
   length h' = length h \<and> (\<forall>b. b \<noteq> r0 \<and> b \<noteq> r1 \<longrightarrow> h' ! b = h ! b)"
proof (induction es arbitrary: h)
  case Nil
  then show ?case by simp
next
  case (Cons x es)
  obtain key v where x: "x = (key, v)" by (cases x)
  let ?step = "if f arg v key (h ! this) then set_at h r0 key v else set_at h r1 key v"
  obtain h1 e1 where s: "?step = (h1, e1)" by (cases ?step)
  have f1: "length h1 = length h \<and> (\<forall>b. b \<noteq> r0 \<and> b \<noteq> r1 \<longrightarrow> h1 ! b = h ! b)"
    using s set_at_frame by (auto split: if_splits)
  show ?case
  proof (cases e1)
    case None
    then have "partition_loop f arg this r0 r1 es h1 = (h', e)" using Cons.prems x s by simp
    from Cons.IH [OF this] f1 show ?thesis by simp
  next
    case (Some err)
    then have "h' = h1" using Cons.prems x s by simp
    with f1 show ?thesis by simp
  qed
qed

lemma Containor_filter_frame:
  assumes "Containor_filter h this func arg = (h', r)"
  shows "take (length h) h' = h \<and> (\<forall>a. r = Inr a \<longrightarrow> a = length h \<and> a < length h')"
proof (cases func)
  case None
  then show ?thesis using assms by (auto simp: Containor_filter_def)
next
  case (Some f)
  obtain h2 e where l: "filter_loop f arg this (length h) ((h @ [[]]) ! this) (h @ [[]]) = (h2, e)"
    by (cases "filter_loop f arg this (length h) ((h @ [[]]) ! this) (h @ [[]])")
  from filter_loop_frame [OF l] have len: "length h2 = length h + 1"
    and same: "\<forall>b. b \<noteq> length h \<longrightarrow> h2 ! b = (h @ [[]]) ! b" by auto
  have "take (length h) h2 = h"
    using len same by (intro nth_equalityI) (auto simp: nth_append)
  moreover have "h' = h2" "\<forall>a. r = Inr a \<longrightarrow> a = length h"
    using assms l Some by (auto simp: Containor_filter_def new_Containor_def split: option.splits)
  ultimately show ?thesis using len by simp
qed

lemma Containor_partition_frame:
  assumes "Containor_partition h this func arg = (h', r)"
  shows "take (length h) h' = h \<and>
         (\<forall>a b. r = Inr (a, b) \<longrightarrow> a = length h \<and> b = length h + 1 \<and> b < length h')"
proof (cases func)
  case None
  then show ?thesis using assms by (auto simp: Containor_partition_def)
next
  case (Some f)
  let ?h2 = "h @ [[], []]"
  obtain h3 e where l: "partition_loop f arg this (length h) (length h + 1) (?h2 ! this) ?h2 = (h3, e)"
    by (cases "partition_loop f arg this (length h) (length h + 1) (?h2 ! this) ?h2")
  from partition_loop_frame [OF l] have len: "length h3 = length h + 2"
    and same: "\<forall>b. b \<noteq> length h \<and> b \<noteq> length h + 1 \<longrightarrow> h3 ! b = ?h2 ! b" by auto
  have "take (length h) h3 = h"
    using len same by (intro nth_equalityI) (auto simp: nth_append)
  moreover have "h' = h3" "\<forall>a b. r = Inr (a, b) \<longrightarrow> a = length h \<and> b = length h + 1"
    using assms l Some by (auto simp: Containor_partition_def new_Containor_def split: option.splits)
  ultimately show ?thesis using len by auto
qed

text \<open>
  C10. Whatever the store, the receiver, the predicate and the index range, and whether
  the call returns or throws: \<^verbatim>\<open>filter\<close>, \<^verbatim>\<open>partition\<close> and \<^verbatim>\<open>slice\<close> leave every container
  that existed before the call as it was, the receiver among them (same keys, same
  values, same order), and the containers they return are new ones, created by the call.
\<close>

theorem filter_partition_slice_frame:
  "(\<forall>h' r. Containor_filter h this func arg = (h', r) \<longrightarrow>
      take (length h) h' = h \<and> (this < length h \<longrightarrow> h' ! this = h ! this) \<and>
      (\<forall>a. r = Inr a \<longrightarrow> length h \<le> a \<and> a < length h')) \<and>
   (\<forall>h' r. Containor_partition h this func arg = (h', r) \<longrightarrow>
      take (length h) h' = h \<and> (this < length h \<longrightarrow> h' ! this = h ! this) \<and>
      (\<forall>a b. r = Inr (a, b) \<longrightarrow> length h \<le> a \<and> a < b \<and> b < length h')) \<and>
   (\<forall>h' r. Containor_slice h this start end = (h', r) \<longrightarrow>
      take (length h) h' = h \<and> (this < length h \<longrightarrow> h' ! this = h ! this) \<and>
      (\<forall>a. r = Inr a \<longrightarrow> length h \<le> a \<and> a < length h'))"
proof (intro conjI allI impI)
  fix h' r assume a: "Containor_filter h this func arg = (h', r)"
  note f = Containor_filter_frame [OF a]
  show "take (length h) h' = h" using f by simp
  show "h' ! this = h ! this" if "this < length h"
    using f that by (metis nth_take)
  show "length h \<le> a" if "r = Inr a" for a using f that by simp
  show "a < length h'" if "r = Inr a" for a using f that by simp
next
  fix h' r assume a: "Containor_partition h this func arg = (h', r)"
  note f = Containor_partition_frame [OF a]
  show "take (length h) h' = h" using f by simp
  show "h' ! this = h ! this" if "this < length h"
    using f that by (metis nth_take)
  show "length h \<le> a" if "r = Inr (a, b)" for a b using f that by simp
  show "a < b" if "r = Inr (a, b)" for a b using f that by simp
  show "b < length h'" if "r = Inr (a, b)" for a b using f that by simp
next
  fix h' r assume a: "Containor_slice h this start end = (h', r)"
  then have "Containor_from h (Array_slice (h ! this) start end) = (h', r)"
    by (simp add: Containor_slice_def)
  note f = Containor_from_frame [OF this]
  show "take (length h) h' = h" using f by simp
  show "h' ! this = h ! this" if "this < length h"
    using f that by (metis nth_take)
  show "length h \<le> a" if "r = Inr a" for a using f that by simp
  show "a < length h'" if "r = Inr a" for a using f that by simp
qed

text \<open>
  The theorem on the store holding \<^verbatim>\<open>{a: 1, b: 2}\<close>: \<^verbatim>\<open>filter\<close> and \<^verbatim>\<open>partition\<close> by the
  predicate \<^verbatim>\<open>v => v === 1\<close> and \<^verbatim>\<open>slice(1)\<close> append their containers and leave the first.
\<close>

theorem filter_partition_slice_frame_witness:
  "Containor_filter [[(JStr ''a'', JNum 1), (JStr ''b'', JNum 2)]] 0
      (Some (\<lambda>this v key c. v = JNum 1)) JUndefined
     = ([[(JStr ''a'', JNum 1), (JStr ''b'', JNum 2)], [(JStr ''a'', JNum 1)]], Inr 1) \<and>
   Containor_partition [[(JStr ''a'', JNum 1), (JStr ''b'', JNum 2)]] 0
      (Some (\<lambda>this v key c. v = JNum 1)) JUndefined
     = ([[(JStr ''a'', JNum 1), (JStr ''b'', JNum 2)], [(JStr ''a'', JNum 1)], [(JStr ''b'', JNum 2)]],
        Inr (1, 2)) \<and>
   Containor_slice [[(JStr ''a'', JNum 1), (JStr ''b'', JNum 2)]] 0 (Some 1) None
     = ([[(JStr ''a'', JNum 1), (JStr ''b'', JNum 2)], [(JStr ''b'', JNum 2)]], Inr 1) \<and>
   take 1 [[(JStr ''a'', JNum 1), (JStr ''b'', JNum 2)], [(JStr ''a'', JNum 1)]]
     = [[(JStr ''a'', JNum 1), (JStr ''b'', JNum 2)]]"
proof -
  let ?c = "[(JStr ''a'', JNum 1), (JStr ''b'', JNum 2)]"
  let ?p = "\<lambda>(this::jsval) v (key::jsval) (c::entries). v = JNum 1"
  have e1: "Containor_filter [?c] 0 (Some ?p) JUndefined = ([?c, [(JStr ''a'', JNum 1)]], Inr 1)"
    by (simp add: Containor_filter_def new_Containor_def set_at_def Containor_set.simps Map_set_def)
  have e2: "Containor_partition [?c] 0 (Some ?p) JUndefined
     = ([?c, [(JStr ''a'', JNum 1)], [(JStr ''b'', JNum 2)]], Inr (1, 2))"
    by (simp add: Containor_partition_def new_Containor_def set_at_def Containor_set.simps Map_set_def)
  have e3: "Containor_slice [?c] 0 (Some 1) None = ([?c, [(JStr ''b'', JNum 2)]], Inr 1)"
    by (simp add: Containor_slice_def Containor_from_def Array_slice_def relative_index_def
        new_Containor_def set_at_def Containor_set.simps Map_set_def)
  from filter_partition_slice_frame [of "[?c]" 0 "Some ?p" JUndefined "Some 1" None] e1
  have "take (length [?c]) [?c, [(JStr ''a'', JNum 1)]] = [?c]"
    by blast
  with e1 e2 e3 show ?thesis by simp
qed

section \<open>first and last\<close>





lemma ToInteger_simps [simp]:
  "ToInteger 0 = 0" "ToInteger 1 = 1" "ToInteger (- 1) = - 1" "ToInteger (of_int i) = i"
  "ToInteger (numeral w) = numeral w" "ToInteger (- numeral w) = - numeral w"
  by (simp_all add: ToInteger_def ceiling_minus)

















section \<open>splice\<close>



















end
